theory Spec2Isabelle
  imports Main
begin

section \<open>The three scripts of the jobs scraper\<close>

text \<open>
  The repository holds three successive scripts of one crawl-and-reconcile engine:
  \<^item> \<^verbatim>\<open>index.js\<close>: the first script (open-ended \<^verbatim>\<open>while\<close> loop, flip-then-upsert store
    update). Its functions carry the suffix \<open>_index\<close> where a name is shared.
  \<^item> \<^verbatim>\<open>part_000\<close>: the capped script with the watermark reconciliation. Its functions keep
    the names of the source.
  \<^item> \<^verbatim>\<open>part_001\<close>: the script that posts the snapshot to an ingestion endpoint and adds
    the next-button mode. Its functions carry the suffix \<open>_bolt\<close> where a name is shared.

  The browser, the store, its client library and the clock are outside the repository. They
  enter the model as explicit inputs: what the k-th page load shows, what the library
  answers when the client is created, what the store answers to the k-th call, what the
  clock reads.
\<close>

subsection \<open>Strings\<close>

text \<open>
  A JavaScript string is a sequence of UTF-16 code units; \<open>js\<close> embeds an ASCII literal.
  \<open>is_ws\<close> is the set matched by \<^verbatim>\<open>\s\<close> and stripped by \<^verbatim>\<open>trim()\<close> (WhiteSpace and
  LineTerminator of ECMAScript). A value that may be \<^verbatim>\<open>null\<close> or \<^verbatim>\<open>undefined\<close> is an option.
\<close>

type_synonym jsstring = "nat list"

definition js :: "string \<Rightarrow> jsstring" where
  "js s = map of_char s"

definition is_ws :: "nat \<Rightarrow> bool" where
  "is_ws c = (c \<in> {9, 10, 11, 12, 13, 32, 160, 5760, 8232, 8233, 8239, 8287, 12288, 65279}
              \<or> (8192 \<le> c \<and> c \<le> 8202))"

definition trim :: "jsstring \<Rightarrow> jsstring" where
  "trim s = rev (dropWhile is_ws (rev (dropWhile is_ws s)))"

text \<open>\<^verbatim>\<open>s.replace(/\s+/g, ' ')\<close>: every maximal run of whitespace becomes one space.\<close>

function replace_ws :: "jsstring \<Rightarrow> jsstring" where
  "replace_ws [] = []"
| "replace_ws (c # cs) =
     (if is_ws c then 32 # replace_ws (dropWhile is_ws cs) else c # replace_ws cs)"
  by pat_completeness auto
termination
  by (relation "measure length") (auto simp: less_Suc_eq_le length_dropWhile_le)

text \<open>\<^verbatim>\<open>s || ''\<close> for a string or null.\<close>

definition or_empty :: "jsstring option \<Rightarrow> jsstring" where
  "or_empty s = (case s of None \<Rightarrow> [] | Some t \<Rightarrow> t)"

text \<open>\<^verbatim>\<open>normaliseText\<close> of index.js; \<^verbatim>\<open>norm\<close> of part_000 and part_001 (the same body).\<close>

definition normaliseText :: "jsstring option \<Rightarrow> jsstring" where
  "normaliseText s = trim (replace_ws (or_empty s))"

definition norm :: "jsstring option \<Rightarrow> jsstring" where
  "norm s = trim (replace_ws (or_empty s))"

text \<open>
  The shape of a normalized string: every whitespace unit in it is a single space that is
  followed by a unit that is not whitespace (or ends the string).
\<close>

fun single_spaced :: "jsstring \<Rightarrow> bool" where
  "single_spaced [] = True"
| "single_spaced [c] = (if is_ws c then c = 32 else True)"
| "single_spaced (c # d # cs) =
     ((if is_ws c then c = 32 \<and> \<not> is_ws d else True) \<and> single_spaced (d # cs))"

text \<open>
  The specification's wording of normalization, for comparison with the code: the words of
  the input (its maximal runs of units that are not whitespace), joined by single spaces.
\<close>

function ws_words :: "jsstring \<Rightarrow> jsstring list" where
  "ws_words s =
     (case dropWhile is_ws s of
        [] \<Rightarrow> []
      | c # cs \<Rightarrow>
          (c # takeWhile (\<lambda>x. \<not> is_ws x) cs) # ws_words (dropWhile (\<lambda>x. \<not> is_ws x) cs))"
  by pat_completeness auto
termination
proof (relation "measure length", goal_cases)
  case 1
  then show ?case by simp
next
  case (2 s c cs)
  have "length (dropWhile (\<lambda>x. \<not> is_ws x) cs) \<le> length cs"
    by (rule length_dropWhile_le)
  moreover have "length (c # cs) \<le> length s"
    using 2 length_dropWhile_le [of is_ws s] by simp
  ultimately show ?case by simp
qed

declare ws_words.simps [simp del]

fun unwords :: "jsstring list \<Rightarrow> jsstring" where
  "unwords [] = []"
| "unwords [w] = w"
| "unwords (w # v # vs) = w @ 32 # unwords (v # vs)"

definition spec_normalize :: "jsstring option \<Rightarrow> jsstring" where
  "spec_normalize s = unwords (ws_words (or_empty s))"

text \<open>\<^verbatim>\<open>s.split(sep)\<close> for a one-unit separator: one more segment than separators.\<close>

fun js_split :: "nat \<Rightarrow> jsstring \<Rightarrow> jsstring list" where
  "js_split sep [] = [[]]"
| "js_split sep (c # cs) =
     (if c = sep then [] # js_split sep cs
      else (case js_split sep cs of [] \<Rightarrow> [[c]] | p # ps \<Rightarrow> (c # p) # ps))"

text \<open>\<^verbatim>\<open>extractCountry\<close> of part_000 and part_001; 44 is the comma.\<close>

definition extractCountry :: "jsstring option \<Rightarrow> jsstring" where
  "extractCountry location' =
     (let parts = filter (\<lambda>p. p \<noteq> []) (map trim (js_split 44 (norm location')))
      in if length parts \<noteq> 0 then last parts else [])"

text \<open>\<^verbatim>\<open>extractCountry\<close> of index.js: no \<^verbatim>\<open>filter(Boolean)\<close>.\<close>

definition extractCountry_index :: "jsstring option \<Rightarrow> jsstring" where
  "extractCountry_index location' =
     (let text' = normaliseText location';
          parts = map trim (js_split 44 text')
      in if length parts > 0 then last parts else [])"

text \<open>
  The specification's wording of country extraction, for comparison with the code: split
  the normalized location on commas, trim each segment, and search from the right for the
  first segment that is not empty; the empty string if there is none.
\<close>

definition spec_extractCountry :: "jsstring option \<Rightarrow> jsstring" where
  "spec_extractCountry location' =
     (case List.find (\<lambda>p. p \<noteq> []) (rev (map trim (js_split 44 (norm location')))) of
        None \<Rightarrow> []
      | Some p \<Rightarrow> p)"

subsection \<open>Job records and the insertion-ordered Map\<close>

record job =
  title :: jsstring
  href :: jsstring
  location :: jsstring
  category :: jsstring
  team :: jsstring

record out_job = job +
  country :: jsstring

text \<open>
  A JavaScript \<^verbatim>\<open>Map\<close>: \<^verbatim>\<open>set\<close> on a key already present replaces the value in place,
  a new key goes to the end; \<^verbatim>\<open>values()\<close> iterates in insertion order.
\<close>

type_synonym 'v jsmap = "(jsstring \<times> 'v) list"

fun map_set :: "jsstring \<Rightarrow> 'v \<Rightarrow> 'v jsmap \<Rightarrow> 'v jsmap" where
  "map_set k v [] = [(k, v)]"
| "map_set k v (e # m) = (if fst e = k then (k, v) # m else e # map_set k v m)"

definition map_values :: "'v jsmap \<Rightarrow> 'v list" where
  "map_values m = map snd m"

definition map_size :: "'v jsmap \<Rightarrow> nat" where
  "map_size m = length m"

text \<open>\<^verbatim>\<open>jobs.forEach(j => allJobsMap.set(j.href, j))\<close>\<close>

definition merge_jobs :: "job list \<Rightarrow> job jsmap \<Rightarrow> job jsmap" where
  "merge_jobs jobs' m = fold (\<lambda>j. map_set (href j) j) jobs' m"

subsection \<open>The page extractor\<close>

text \<open>
  What \<^verbatim>\<open>page.evaluate\<close> reads of one anchor matching \<^verbatim>\<open>a[href*="/job/"]\<close>: its resolved
  \<^verbatim>\<open>href\<close> property, its \<^verbatim>\<open>href\<close> attribute, its text content, and the text content of the
  location, category and team elements of the enclosing card (None when the card or the
  element is missing).
\<close>

record anchor =
  a_href :: jsstring
  a_attr_href :: "jsstring option"
  a_textContent :: "jsstring option"
  card_location :: "jsstring option"
  card_category :: "jsstring option"
  card_team :: "jsstring option"

text \<open>\<^verbatim>\<open>el?.textContent?.trim() || ''\<close>\<close>

definition pick :: "jsstring option \<Rightarrow> jsstring" where
  "pick t = (case t of None \<Rightarrow> [] | Some s \<Rightarrow> trim s)"

text \<open>The body of \<^verbatim>\<open>for (const a of anchors)\<close>, with the resolved link given.\<close>

definition add_anchor :: "jsstring \<Rightarrow> anchor \<Rightarrow> job jsmap \<Rightarrow> job jsmap" where
  "add_anchor h a m =
     (case map_option trim (a_textContent a) of
        None \<Rightarrow> m
      | Some t \<Rightarrow>
          if h \<noteq> [] \<and> t \<noteq> []
          then map_set h \<lparr>title = t, href = h, location = pick (card_location a),
                 category = pick (card_category a), team = pick (card_team a)\<rparr> m
          else m)"

text \<open>index.js and part_000: \<^verbatim>\<open>const href = a.href\<close>.\<close>

definition evaluate_anchors :: "anchor list \<Rightarrow> job list" where
  "evaluate_anchors as = map_values (fold (\<lambda>a. add_anchor (a_href a) a) as [])"

text \<open>part_001: \<^verbatim>\<open>const href = a.href || a.getAttribute('href')\<close>.\<close>

definition href_bolt :: "anchor \<Rightarrow> jsstring" where
  "href_bolt a = (if a_href a \<noteq> [] then a_href a else or_empty (a_attr_href a))"

definition evaluate_anchors_bolt :: "anchor list \<Rightarrow> job list" where
  "evaluate_anchors_bolt as = map_values (fold (\<lambda>a. add_anchor (href_bolt a) a) as [])"

text \<open>
  One page load as the extractor sees it: whether \<^verbatim>\<open>page.goto\<close> resolved, whether the
  network went idle in time, whether a first job link became visible within the wait, and
  the anchors the document holds when it is queried. The consent click of part_000 and
  part_001 (\<^verbatim>\<open>acceptCookies\<close>) swallows the failure of its click and changes nothing the
  extractor reads; it is left out.
\<close>

record page =
  goto_ok :: bool
  idle_ok :: bool
  mounted :: bool
  anchors :: "anchor list"

datatype error =
  NavigationError
  | TimeoutError
  | StoreError nat
  | MissingCredentials
  | HttpError nat
  | IOError
  | ClientError

text \<open>
  index.js: both waits are awaited without a handler, so a timeout is thrown.
\<close>

definition scrapePage_index :: "page \<Rightarrow> error + job list" where
  "scrapePage_index pg =
     (if \<not> goto_ok pg then Inl NavigationError
      else if \<not> idle_ok pg then Inl TimeoutError
      else if \<not> mounted pg then Inl TimeoutError
      else Inr (evaluate_anchors (anchors pg)))"

text \<open>
  part_000: the idle wait is caught; the mount wait yields \<^verbatim>\<open>mounted\<close>, and
  \<^verbatim>\<open>if (!mounted) return []\<close>.
\<close>

definition scrapePage :: "page \<Rightarrow> error + job list" where
  "scrapePage pg =
     (if \<not> goto_ok pg then Inl NavigationError
      else if \<not> mounted pg then Inr []
      else Inr (evaluate_anchors (anchors pg)))"

definition scrapePage_bolt :: "page \<Rightarrow> error + job list" where
  "scrapePage_bolt pg =
     (if \<not> goto_ok pg then Inl NavigationError
      else if \<not> mounted pg then Inr []
      else Inr (evaluate_anchors_bolt (anchors pg)))"

subsection \<open>Snapshot assembly\<close>

definition BASE_URL :: jsstring where
  "BASE_URL = js ''https://jobs.ardaghgroup.com/global/en/search-results?s=1''"

definition PAGE_SIZE :: nat where
  "PAGE_SIZE = 10"

definition MAX_PAGES :: nat where
  "MAX_PAGES = 60"

record payload =
  scraped_at :: nat
  source :: jsstring
  count :: nat
  jobs :: "out_job list"

text \<open>The callback of \<^verbatim>\<open>allJobs.map\<close> in part_000 and part_001, and in index.js.\<close>

definition finalize :: "job \<Rightarrow> out_job" where
  "finalize j =
     (let location' = norm (Some (location j))
      in \<lparr>title = norm (Some (title j)), href = href j, location = location',
          category = norm (Some (category j)), team = norm (Some (team j)),
          country = extractCountry (Some location')\<rparr>)"

definition finalize_index :: "job \<Rightarrow> out_job" where
  "finalize_index j =
     (let location' = normaliseText (Some (location j))
      in \<lparr>title = normaliseText (Some (title j)), href = href j, location = location',
          category = normaliseText (Some (category j)), team = normaliseText (Some (team j)),
          country = extractCountry_index (Some location')\<rparr>)"

text \<open>
  The payload literal. \<open>now\<close> is what \<^verbatim>\<open>new Date()\<close> reads when the payload is built; a
  timestamp is a number of clock ticks.
\<close>

definition make_payload :: "jsstring \<Rightarrow> nat \<Rightarrow> job list \<Rightarrow> payload" where
  "make_payload src now allJobs =
     \<lparr>scraped_at = now, source = src, count = length allJobs, jobs = map finalize allJobs\<rparr>"

definition make_payload_index :: "nat \<Rightarrow> job list \<Rightarrow> payload" where
  "make_payload_index now allJobs =
     \<lparr>scraped_at = now, source = BASE_URL, count = length allJobs,
      jobs = map finalize_index allJobs\<rparr>"

subsection \<open>Offset pagination\<close>

text \<open>
  A site is what each page load shows: \<open>st k\<close> is the page of the k-th call of
  \<^verbatim>\<open>scrapePage\<close> (from 0). Every offset loop returns, with its result, the offsets it
  requested, in order: one entry for each page load. The URL of a load is a function of
  its offset and is not modelled.
\<close>

type_synonym site = "nat \<Rightarrow> page"

text \<open>
  index.js: \<^verbatim>\<open>while (hasMore)\<close>. Nothing bounds the loop, so it is a partial function: None
  is a run that never leaves the loop.
\<close>

partial_function (option) scrapeJobs_index_loop ::
  "site \<Rightarrow> nat \<Rightarrow> job jsmap \<Rightarrow> nat list \<Rightarrow> (nat list \<times> (error + job jsmap)) option" where
  "scrapeJobs_index_loop st pageOffset allJobsMap loads =
     (case scrapePage_index (st (pageOffset div PAGE_SIZE)) of
        Inl e \<Rightarrow> Some (loads @ [pageOffset], Inl e)
      | Inr jobs' \<Rightarrow>
          if length jobs' = 0 then Some (loads @ [pageOffset], Inr allJobsMap)
          else if length jobs' < PAGE_SIZE
          then Some (loads @ [pageOffset], Inr (merge_jobs jobs' allJobsMap))
          else scrapeJobs_index_loop st (pageOffset + PAGE_SIZE) (merge_jobs jobs' allJobsMap)
                 (loads @ [pageOffset]))"

definition scrapeJobs_index :: "site \<Rightarrow> nat \<Rightarrow> (nat list \<times> (error + payload)) option" where
  "scrapeJobs_index st now =
     (case scrapeJobs_index_loop st 0 [] [] of
        None \<Rightarrow> None
      | Some (loads, Inl e) \<Rightarrow> Some (loads, Inl e)
      | Some (loads, Inr m) \<Rightarrow> Some (loads, Inr (make_payload_index now (map_values m))))"

text \<open>part_000: \<^verbatim>\<open>for (let pageIndex = 0; pageIndex < MAX_PAGES; pageIndex++)\<close>.\<close>

function scrapeJobs_loop ::
  "site \<Rightarrow> nat \<Rightarrow> nat set \<Rightarrow> job jsmap \<Rightarrow> nat list \<times> (error + job jsmap)" where
  "scrapeJobs_loop st pageIndex seenOffsets allJobsMap =
     (if pageIndex < MAX_PAGES then
        (let offset = pageIndex * PAGE_SIZE in
         if offset \<in> seenOffsets then ([], Inr allJobsMap)
         else
           (case scrapePage (st pageIndex) of
              Inl e \<Rightarrow> ([offset], Inl e)
            | Inr jobs' \<Rightarrow>
                if length jobs' = 0 then ([offset], Inr allJobsMap)
                else if length jobs' < PAGE_SIZE
                then ([offset], Inr (merge_jobs jobs' allJobsMap))
                else
                  (case scrapeJobs_loop st (pageIndex + 1) (insert offset seenOffsets)
                          (merge_jobs jobs' allJobsMap) of
                     (loads, r) \<Rightarrow> (offset # loads, r))))
      else ([], Inr allJobsMap))"
  by pat_completeness auto
termination
  by (relation "measure (\<lambda>(st, pageIndex, seenOffsets, allJobsMap). MAX_PAGES - pageIndex)") auto

declare scrapeJobs_loop.simps [simp del]

definition scrapeJobs :: "site \<Rightarrow> nat \<Rightarrow> nat list \<times> (error + payload)" where
  "scrapeJobs st now =
     (case scrapeJobs_loop st 0 {} [] of
        (loads, Inl e) \<Rightarrow> (loads, Inl e)
      | (loads, Inr m) \<Rightarrow> (loads, Inr (make_payload BASE_URL now (map_values m))))"

subsection \<open>part_001: configuration, offset mode and next-button mode\<close>

text \<open>
  The values part_001 reads from the environment. \<^verbatim>\<open>Number(process.env.X || d)\<close> is modelled
  for the inputs that denote integers; \<open>cfg_PAGINATION_MODE\<close> is the lower-cased value.
\<close>

record config =
  cfg_BASE_URL :: jsstring
  cfg_PAGE_SIZE :: int
  cfg_MAX_PAGES :: int
  cfg_PAGINATION_MODE :: jsstring
  cfg_BOLT_INGEST_URL :: "jsstring option"
  cfg_INGEST_KEY :: "jsstring option"

function offset_loop_bolt ::
  "config \<Rightarrow> site \<Rightarrow> nat \<Rightarrow> job jsmap \<Rightarrow> int list \<times> (error + job jsmap)" where
  "offset_loop_bolt cfg st pageIndex allJobsMap =
     (if int pageIndex < cfg_MAX_PAGES cfg then
        (let offset = int pageIndex * cfg_PAGE_SIZE cfg in
         case scrapePage_bolt (st pageIndex) of
           Inl e \<Rightarrow> ([offset], Inl e)
         | Inr jobs' \<Rightarrow>
             if length jobs' = 0 then ([offset], Inr allJobsMap)
             else if int (length jobs') < cfg_PAGE_SIZE cfg
             then ([offset], Inr (merge_jobs jobs' allJobsMap))
             else
               (case offset_loop_bolt cfg st (pageIndex + 1) (merge_jobs jobs' allJobsMap) of
                  (loads, r) \<Rightarrow> (offset # loads, r)))
      else ([], Inr allJobsMap))"
  by pat_completeness auto
termination
  by (relation "measure (\<lambda>(cfg, st, pageIndex, allJobsMap). nat (cfg_MAX_PAGES cfg - int pageIndex))")
    auto

declare offset_loop_bolt.simps [simp del]

text \<open>
  What an iteration of the next-button loop sees of the next control before it clicks:
  \<^verbatim>\<open>next.count()\<close> and the result of \<^verbatim>\<open>next.isEnabled()\<close>, which may throw.
\<close>

record next_control =
  next_count :: nat
  next_isEnabled :: "error + bool"

text \<open>
  \<^verbatim>\<open>for (let p = 2; p <= MAX_PAGES; p++)\<close>. Iteration \<open>p\<close> sees the control \<open>ctl p\<close> and, after
  the click, loads the page \<open>st (p - 1)\<close>. The list returned holds the values of \<open>p\<close> for
  which the loop body was entered.
\<close>

function next_loop ::
  "config \<Rightarrow> site \<Rightarrow> (nat \<Rightarrow> next_control) \<Rightarrow> nat \<Rightarrow> job jsmap \<Rightarrow> nat list \<times> (error + job jsmap)" where
  "next_loop cfg st ctl p allJobsMap =
     (if int p \<le> cfg_MAX_PAGES cfg then
        (let exists' = next_count (ctl p) > 0;
             enabled = exists' \<and> (case next_isEnabled (ctl p) of Inl e \<Rightarrow> False | Inr b \<Rightarrow> b)
         in
         if \<not> exists' \<or> \<not> enabled then ([p], Inr allJobsMap)
         else
           (case scrapePage_bolt (st (p - 1)) of
              Inl e \<Rightarrow> ([p], Inl e)
            | Inr more' \<Rightarrow>
                if length more' = 0 then ([p], Inr allJobsMap)
                else
                  (let before = map_size allJobsMap;
                       merged = merge_jobs more' allJobsMap
                   in
                   if map_size merged = before then ([p], Inr merged)
                   else
                     (case next_loop cfg st ctl (p + 1) merged of
                        (its, r) \<Rightarrow> (p # its, r)))))
      else ([], Inr allJobsMap))"
  by pat_completeness auto
termination
  by (relation "measure (\<lambda>(cfg, st, ctl, p, allJobsMap). nat (cfg_MAX_PAGES cfg + 1 - int p))") auto

declare next_loop.simps [simp del]

text \<open>
  \<^verbatim>\<open>scrapeAll\<close>: the first page of next mode is loaded before the loop and merged whether
  or not it is empty. The first component is page 1 followed by the iterations of the
  loop (next mode), or the offsets requested (offset mode).
\<close>

definition scrapeAll ::
  "config \<Rightarrow> site \<Rightarrow> (nat \<Rightarrow> next_control) \<Rightarrow> nat \<Rightarrow> int list \<times> (error + payload)" where
  "scrapeAll cfg st ctl now =
     (case
        (if cfg_PAGINATION_MODE cfg = js ''next'' then
           (case scrapePage_bolt (st 0) of
              Inl e \<Rightarrow> ([1], Inl e)
            | Inr jobs' \<Rightarrow>
                (case next_loop cfg st ctl 2 (merge_jobs jobs' []) of
                   (its, r) \<Rightarrow> (1 # map int its, r)))
         else offset_loop_bolt cfg st 0 [])
      of
        (loads, Inl e) \<Rightarrow> (loads, Inl e)
      | (loads, Inr m) \<Rightarrow>
          (loads, Inr (make_payload (cfg_BASE_URL cfg) now (map_values m))))"

subsection \<open>The store and the two reconciliations\<close>

text \<open>
  The \<^verbatim>\<open>jobs\<close> table of the store, keyed by \<^verbatim>\<open>url\<close> (the conflict key of the upsert). The
  store is not part of the repository; it is modelled by the two operations the scripts
  call. An upsert writes each row under its url, replacing a row already there. An update
  sets \<^verbatim>\<open>is_active\<close> to false on the rows its filters select. A call that answers with an
  error leaves the table as it was.
\<close>

record row =
  row_title :: jsstring
  row_location :: jsstring
  description :: jsstring
  url :: jsstring
  is_active :: bool
  updated_at :: nat

type_synonym store = "jsstring \<Rightarrow> row option"

definition store_upsert :: "row list \<Rightarrow> store \<Rightarrow> store" where
  "store_upsert rs s = fold (\<lambda>r t. t(url r \<mapsto> r)) rs s"

definition store_set_inactive :: "(row \<Rightarrow> bool) \<Rightarrow> store \<Rightarrow> store" where
  "store_set_inactive sel s =
     (\<lambda>u. case s u of
            None \<Rightarrow> None
          | Some r \<Rightarrow> Some (if sel r then r\<lparr>is_active := False\<rparr> else r))"

text \<open>
  What the store answers: the error of the k-th upsert call (None when it succeeds), and the
  error of the update call. The calls a run issues are logged in order.
\<close>

record db =
  upsert_error :: "nat \<Rightarrow> error option"
  update_error :: "error option"

datatype db_op =
  Upsert "row list"
  | DeactivateAll
  | DeactivateBefore nat

text \<open>The row literal of both scripts; they differ in the timestamp they pass.\<close>

definition to_row :: "nat \<Rightarrow> out_job \<Rightarrow> row" where
  "to_row stamp j =
     \<lparr>row_title = title j, row_location = location j,
      description = trim (category j @ 32 # team j), url = href j,
      is_active = True, updated_at = stamp\<rparr>"

definition CHUNK :: nat where
  "CHUNK = 500"

text \<open>
  part_000: \<^verbatim>\<open>for (let i = 0; i < rows.length; i += CHUNK)\<close> with
  \<^verbatim>\<open>if (error) throw error\<close>. The result is the table, the calls issued and the error thrown.
\<close>

function upsert_chunks ::
  "db \<Rightarrow> row list \<Rightarrow> nat \<Rightarrow> store \<Rightarrow> store \<times> db_op list \<times> error option" where
  "upsert_chunks d rows i s =
     (if i < length rows then
        (let slice = take CHUNK (drop i rows) in
         case upsert_error d (i div CHUNK) of
           Some e \<Rightarrow> (s, [Upsert slice], Some e)
         | None \<Rightarrow>
             (case upsert_chunks d rows (i + CHUNK) (store_upsert slice s) of
                (s', ops, r) \<Rightarrow> (s', Upsert slice # ops, r)))
      else (s, [], None))"
  by pat_completeness auto
termination
  by (relation "measure (\<lambda>(d, rows, i, s). length rows - i)") (auto simp: CHUNK_def)

declare upsert_chunks.simps [simp del]

definition updateDatabase :: "db \<Rightarrow> payload \<Rightarrow> store \<Rightarrow> store \<times> db_op list \<times> error option" where
  "updateDatabase d payload' s =
     (let seenAt = scraped_at payload';
          rows = map (to_row seenAt) (jobs payload')
      in
      case upsert_chunks d rows 0 s of
        (s1, ops, Some e) \<Rightarrow> (s1, ops, Some e)
      | (s1, ops, None) \<Rightarrow>
          (case update_error d of
             Some deactErr \<Rightarrow> (s1, ops @ [DeactivateBefore seenAt], Some deactErr)
           | None \<Rightarrow>
               (store_set_inactive (\<lambda>r. is_active r \<and> updated_at r < seenAt) s1,
                ops @ [DeactivateBefore seenAt], None)))"

text \<open>
  index.js: the update of every active row comes first, then one upsert for each job, each
  stamped with \<^verbatim>\<open>new Date()\<close> at that moment (\<open>clock k\<close> for the k-th job, from 1). No answer
  of the store is looked at.
\<close>

fun upsert_each_index ::
  "db \<Rightarrow> (nat \<Rightarrow> nat) \<Rightarrow> nat \<Rightarrow> out_job list \<Rightarrow> store \<Rightarrow> store \<times> db_op list" where
  "upsert_each_index d clock k [] s = (s, [])"
| "upsert_each_index d clock k (j # rest) s =
     (let r = to_row (clock k) j;
          s' = (case upsert_error d (k - 1) of None \<Rightarrow> store_upsert [r] s | Some e \<Rightarrow> s)
      in case upsert_each_index d clock (k + 1) rest s' of
           (s'', ops) \<Rightarrow> (s'', Upsert [r] # ops))"

definition updateDatabase_index ::
  "db \<Rightarrow> (nat \<Rightarrow> nat) \<Rightarrow> payload \<Rightarrow> store \<Rightarrow> store \<times> db_op list \<times> error option" where
  "updateDatabase_index d clock payload' s =
     (let s1 = (case update_error d of None \<Rightarrow> store_set_inactive is_active s | Some e \<Rightarrow> s)
      in case upsert_each_index d clock 1 (jobs payload') s1 of
           (s2, ops) \<Rightarrow> (s2, DeactivateAll # ops, None))"

subsection \<open>The programs\<close>

text \<open>
  A run is the sequence of its steps towards the outside, the table it leaves and its exit
  code. \<open>Crawl k\<close> is one pass of the pagination loop (offset \<open>k\<close>, or page number \<open>k\<close> in
  next mode); \<open>Db\<close> is a call to the store; \<open>SaveJson\<close> is the file written; \<open>PostIngest\<close> is
  the request posted.
\<close>

datatype event =
  Crawl int
  | Db db_op
  | SaveJson
  | PostIngest

record env =
  VITE_SUPABASE_URL :: "jsstring option"
  SUPABASE_URL :: "jsstring option"
  VITE_SUPABASE_ANON_KEY :: "jsstring option"
  SUPABASE_SERVICE_ROLE :: "jsstring option"
  SUPABASE_KEY :: "jsstring option"

text \<open>
  \<^verbatim>\<open>createClient\<close> belongs to the store's client library, which is not part of the
  repository. Both scripts call it in the module body, after the credential check and before
  \<^verbatim>\<open>main()\<close>. What it answers for a URL and a key is a parameter of the world: None when it
  returns a client, the error when it throws (on a URL it cannot parse, for one). Nothing
  catches a throw in the module body: the process ends with exit code 1.
\<close>

record world =
  w_site :: site
  w_clock :: "nat \<Rightarrow> nat"
  w_db :: db
  w_store :: store
  w_createClient :: "jsstring option \<Rightarrow> jsstring option \<Rightarrow> error option"

text \<open>Truthiness of a string or undefined, and \<^verbatim>\<open>a || b\<close>.\<close>

definition truthy :: "jsstring option \<Rightarrow> bool" where
  "truthy v = (case v of None \<Rightarrow> False | Some s \<Rightarrow> s \<noteq> [])"

definition or_js :: "jsstring option \<Rightarrow> jsstring option \<Rightarrow> jsstring option" where
  "or_js a b = (if truthy a then a else b)"

text \<open>part_000: \<^verbatim>\<open>main\<close>, and the module body that runs before it.\<close>

definition main :: "world \<Rightarrow> event list \<times> store \<times> nat" where
  "main w =
     (case scrapeJobs (w_site w) (w_clock w 0) of
        (loads, Inl e) \<Rightarrow> (map (Crawl \<circ> int) loads, w_store w, 1)
      | (loads, Inr payload') \<Rightarrow>
          (case updateDatabase (w_db w) payload' (w_store w) of
             (s, ops, Some e) \<Rightarrow> (map (Crawl \<circ> int) loads @ map Db ops, s, 1)
           | (s, ops, None) \<Rightarrow> (map (Crawl \<circ> int) loads @ map Db ops, s, 0)))"

definition program :: "env \<Rightarrow> world \<Rightarrow> event list \<times> store \<times> nat" where
  "program ev w =
     (let supabaseUrl = or_js (VITE_SUPABASE_URL ev) (SUPABASE_URL ev);
          supabaseKey = or_js (or_js (VITE_SUPABASE_ANON_KEY ev) (SUPABASE_SERVICE_ROLE ev))
                          (SUPABASE_KEY ev)
      in if \<not> truthy supabaseUrl \<or> \<not> truthy supabaseKey then ([], w_store w, 1)
         else
           (case w_createClient w supabaseUrl supabaseKey of
              Some e \<Rightarrow> ([], w_store w, 1)
            | None \<Rightarrow> main w))"

text \<open>index.js: None is a run that never ends.\<close>

definition main_index :: "world \<Rightarrow> (event list \<times> store \<times> nat) option" where
  "main_index w =
     (case scrapeJobs_index (w_site w) (w_clock w 0) of
        None \<Rightarrow> None
      | Some (loads, Inl e) \<Rightarrow> Some (map (Crawl \<circ> int) loads, w_store w, 1)
      | Some (loads, Inr payload') \<Rightarrow>
          (case updateDatabase_index (w_db w) (w_clock w) payload' (w_store w) of
             (s, ops, r) \<Rightarrow> Some (map (Crawl \<circ> int) loads @ map Db ops, s, 0)))"

definition program_index :: "env \<Rightarrow> world \<Rightarrow> (event list \<times> store \<times> nat) option" where
  "program_index ev w =
     (let supabaseUrl = VITE_SUPABASE_URL ev;
          supabaseKey = VITE_SUPABASE_ANON_KEY ev
      in if \<not> truthy supabaseUrl \<or> \<not> truthy supabaseKey then Some ([], w_store w, 1)
         else
           (case w_createClient w supabaseUrl supabaseKey of
              Some e \<Rightarrow> Some ([], w_store w, 1)
            | None \<Rightarrow> main_index w))"

text \<open>
  part_001: the module body only reads the configuration. \<^verbatim>\<open>postToBolt\<close> checks the two
  credentials when it is called, after \<^verbatim>\<open>scrapeAll\<close> and \<^verbatim>\<open>saveJson\<close>. The outside of this
  script: the site, the next controls, the clock, whether the file can be written, and the
  answer to the request (a rejection, or an HTTP status).
\<close>

record world_bolt =
  b_site :: site
  b_controls :: "nat \<Rightarrow> next_control"
  b_clock :: "nat \<Rightarrow> nat"
  b_write_error :: "error option"
  b_fetch :: "error + nat"

definition postToBolt :: "config \<Rightarrow> error + nat \<Rightarrow> event list \<times> error option" where
  "postToBolt cfg fetch =
     (if \<not> truthy (cfg_BOLT_INGEST_URL cfg) \<or> \<not> truthy (cfg_INGEST_KEY cfg)
      then ([], Some MissingCredentials)
      else
        (case fetch of
           Inl e \<Rightarrow> ([PostIngest], Some e)
         | Inr status \<Rightarrow>
             if 200 \<le> status \<and> status \<le> 299 then ([PostIngest], None)
             else ([PostIngest], Some (HttpError status))))"

definition main_bolt :: "config \<Rightarrow> world_bolt \<Rightarrow> event list \<times> nat" where
  "main_bolt cfg w =
     (case scrapeAll cfg (b_site w) (b_controls w) (b_clock w 0) of
        (loads, Inl e) \<Rightarrow> (map Crawl loads, 1)
      | (loads, Inr payload') \<Rightarrow>
          (case b_write_error w of
             Some e \<Rightarrow> (map Crawl loads @ [SaveJson], 1)
           | None \<Rightarrow>
               (case postToBolt cfg (b_fetch w) of
                  (evs, Some e) \<Rightarrow> (map Crawl loads @ SaveJson # evs, 1)
                | (evs, None) \<Rightarrow> (map Crawl loads @ SaveJson # evs, 0))))"

subsection \<open>Notions used to state the properties\<close>

text \<open>
  An anchor that yields a record: its link is not empty and its trimmed text is not empty.
  A record with a link and a title.
\<close>

definition extractable :: "jsstring \<Rightarrow> anchor \<Rightarrow> bool" where
  "extractable h a =
     (h \<noteq> [] \<and> (case a_textContent a of None \<Rightarrow> False | Some t \<Rightarrow> trim t \<noteq> []))"

definition has_link_and_title :: "'a job_scheme \<Rightarrow> bool" where
  "has_link_and_title j = (href j \<noteq> [] \<and> title j \<noteq> [])"

text \<open>The records a page load contributes to the aggregate: none when the load fails.\<close>

definition batch_of :: "error + job list \<Rightarrow> job list" where
  "batch_of x = (case x of Inl e \<Rightarrow> [] | Inr b \<Rightarrow> b)"

text \<open>
  An offset loop with page size \<open>ps\<close> goes on after a page exactly when the page was
  extracted, its batch is not empty and the batch is not shorter than \<open>ps\<close>.
\<close>

definition continues :: "int \<Rightarrow> error + job list \<Rightarrow> bool" where
  "continues ps x =
     (case x of Inl e \<Rightarrow> False | Inr b \<Rightarrow> length b \<noteq> 0 \<and> \<not> int (length b) < ps)"

text \<open>
  The next-button loop goes on after an iteration exactly when the control was there and
  enabled, the page was extracted, its batch is not empty and merging it made the aggregate
  larger.
\<close>

definition goes_on :: "next_control \<Rightarrow> error + job list \<Rightarrow> job jsmap \<Rightarrow> bool" where
  "goes_on c x m =
     (next_count c > 0 \<and> (case next_isEnabled c of Inl e \<Rightarrow> False | Inr b \<Rightarrow> b)
      \<and> (case x of
            Inl e \<Rightarrow> False
          | Inr b \<Rightarrow> length b \<noteq> 0 \<and> map_size (merge_jobs b m) \<noteq> map_size m))"

text \<open>The aggregate after the pages \<open>ks\<close> have been merged into \<open>m\<close>, in that order.\<close>

definition merged_pages :: "(nat \<Rightarrow> error + job list) \<Rightarrow> nat list \<Rightarrow> job jsmap \<Rightarrow> job jsmap" where
  "merged_pages f ks m = fold (\<lambda>k. merge_jobs (batch_of (f k))) ks m"

text \<open>
  The keys of a sequence in the order of their first sighting, and the last record written
  under a key.
\<close>

definition first_sightings :: "'a list \<Rightarrow> 'a list" where
  "first_sightings ks = fold (\<lambda>k seen. if k \<in> set seen then seen else seen @ [k]) ks []"

definition last_write :: "job list \<Rightarrow> jsstring \<Rightarrow> job" where
  "last_write raw k = last (filter (\<lambda>j. href j = k) raw)"

text \<open>
  The offset loop in general: page size \<open>ps\<close>, cap \<open>cap\<close>, page results \<open>f\<close>. It returns the
  number of pages it loaded. The loops of part_000 and part_001 are instances; the loop of
  index.js is the loop without a cap.
\<close>

function pages_loop ::
  "(nat \<Rightarrow> error + job list) \<Rightarrow> int \<Rightarrow> nat \<Rightarrow> nat \<Rightarrow> job jsmap \<Rightarrow> nat \<times> (error + job jsmap)" where
  "pages_loop f ps cap i m =
     (if i < cap then
        (case f i of
           Inl e \<Rightarrow> (1, Inl e)
         | Inr b \<Rightarrow>
             if length b = 0 then (1, Inr m)
             else if int (length b) < ps then (1, Inr (merge_jobs b m))
             else (case pages_loop f ps cap (i + 1) (merge_jobs b m) of (n, r) \<Rightarrow> (Suc n, r)))
      else (0, Inr m))"
  by pat_completeness auto
termination
  by (relation "measure (\<lambda>(f, ps, cap, i, m). cap - i)") auto


declare pages_loop.simps [simp del]
subsection \<open>Example inputs\<close>

text \<open>
  Anchors with distinct links and titles, pages made of them, a page on which no job link
  ever shows, the two-page site of the end-to-end scenario (ten links, then four), and a
  site that answers every load with the same full page.
\<close>

definition demo_anchor :: "nat \<Rightarrow> anchor" where
  "demo_anchor k =
     \<lparr>a_href = [47, 106, 47, 65 + k], a_attr_href = Some [47, 106, 47, 65 + k],
      a_textContent = Some [32, 74, 65 + k, 32], card_location = None,
      card_category = Some [32], card_team = None\<rparr>"

definition demo_page :: "nat list \<Rightarrow> page" where
  "demo_page ks = \<lparr>goto_ok = True, idle_ok = True, mounted = True, anchors = map demo_anchor ks\<rparr>"

definition empty_page :: page where
  "empty_page = \<lparr>goto_ok = True, idle_ok = True, mounted = False, anchors = []\<rparr>"

definition demo_site :: site where
  "demo_site k =
     (if k = 0 then demo_page [0, 1, 2, 3, 4, 5, 6, 7, 8, 9]
      else if k = 1 then demo_page [10, 11, 12, 13]
      else empty_page)"

definition endless_site :: site where
  "endless_site k = demo_page [0, 1, 2, 3, 4, 5, 6, 7, 8, 9]"

definition empty_site :: site where
  "empty_site k = empty_page"

text \<open>
  A next control that is there and enabled on pages 1 and 2 and gone on page 3; the
  configuration of a next-mode run with the endpoint set and the key missing.
\<close>

definition demo_controls :: "nat \<Rightarrow> next_control" where
  "demo_controls p = \<lparr>next_count = (if p < 3 then 1 else 0), next_isEnabled = Inr True\<rparr>"

definition demo_config :: config where
  "demo_config =
     \<lparr>cfg_BASE_URL = BASE_URL, cfg_PAGE_SIZE = 10, cfg_MAX_PAGES = 60,
      cfg_PAGINATION_MODE = js ''next'', cfg_BOLT_INGEST_URL = Some (js ''https://bolt/ingest''),
      cfg_INGEST_KEY = None\<rparr>"

text \<open>
  A store that answers every call without error, a client library that throws unless the
  URL starts with \<open>http\<close>, and a world around a site.
\<close>

definition demo_db :: db where
  "demo_db = \<lparr>upsert_error = (\<lambda>k. None), update_error = None\<rparr>"

definition demo_createClient :: "jsstring option \<Rightarrow> jsstring option \<Rightarrow> error option" where
  "demo_createClient u k = (if take 4 (or_empty u) = [104, 116, 116, 112] then None else Some ClientError)"

definition demo_world :: "site \<Rightarrow> world" where
  "demo_world st =
     \<lparr>w_site = st, w_clock = (\<lambda>k. 100 + k), w_db = demo_db, w_store = Map.empty,
      w_createClient = demo_createClient\<rparr>"

text \<open>
  Normalized records, a snapshot of some of them taken at \<open>t\<close>, and the world of a
  next-mode run of part_001 whose request would be answered with status 200.
\<close>

definition demo_job :: "nat \<Rightarrow> out_job" where
  "demo_job k =
     \<lparr>title = [74, 65 + k], href = [47, 106, 47, 65 + k], location = [], category = [],
      team = [], country = []\<rparr>"

definition demo_payload :: "nat \<Rightarrow> nat list \<Rightarrow> payload" where
  "demo_payload t ks =
     \<lparr>scraped_at = t, source = BASE_URL, count = length ks, jobs = map demo_job ks\<rparr>"

definition demo_world_bolt :: world_bolt where
  "demo_world_bolt =
     \<lparr>b_site = demo_site, b_controls = demo_controls, b_clock = (\<lambda>k. 100 + k),
      b_write_error = None, b_fetch = Inr 200\<rparr>"

text \<open>A store whose first upsert call fails.\<close>

definition failing_db :: db where
  "failing_db = \<lparr>upsert_error = (\<lambda>k. if k = 0 then Some (StoreError 500) else None),
     update_error = None\<rparr>"

text \<open>
  A clock that starts at 100; the table left by a first run over the records 0 and 1 at
  time 100; a table holding record 0 stamped 200, later than the snapshot taken at 100; a
  world whose store fails the first upsert; an environment without any credential, one
  with a URL and a key, and one whose URL is there and is not a URL.
\<close>

definition demo_clock :: "nat \<Rightarrow> nat" where
  "demo_clock k = 100 + k"

definition demo_store1 :: store where
  "demo_store1 = fst (updateDatabase demo_db (demo_payload 100 [0, 1]) Map.empty)"

definition late_store :: store where
  "late_store = Map.empty(href (demo_job 0) \<mapsto> to_row 200 (demo_job 0))"

definition failing_world :: world where
  "failing_world =
     \<lparr>w_site = demo_site, w_clock = demo_clock, w_db = failing_db, w_store = Map.empty,
      w_createClient = demo_createClient\<rparr>"

definition no_env :: env where
  "no_env = \<lparr>VITE_SUPABASE_URL = None, SUPABASE_URL = None, VITE_SUPABASE_ANON_KEY = None,
     SUPABASE_SERVICE_ROLE = None, SUPABASE_KEY = None\<rparr>"

definition demo_env :: env where
  "demo_env = \<lparr>VITE_SUPABASE_URL = Some [104, 116, 116, 112, 115, 58, 47, 47, 100, 98],
     SUPABASE_URL = None, VITE_SUPABASE_ANON_KEY = Some [107, 101, 121],
     SUPABASE_SERVICE_ROLE = None, SUPABASE_KEY = None\<rparr>"

definition malformed_env :: env where
  "malformed_env = \<lparr>VITE_SUPABASE_URL = Some [100, 98], SUPABASE_URL = None,
     VITE_SUPABASE_ANON_KEY = Some [107, 101, 121], SUPABASE_SERVICE_ROLE = None,
     SUPABASE_KEY = None\<rparr>"

text \<open>A site with one full page of ten links and, after it, pages on which no link shows.\<close>

definition exact_site :: site where
  "exact_site k = (if k = 0 then demo_page [0, 1, 2, 3, 4, 5, 6, 7, 8, 9] else empty_page)"

section \<open>Text normalizer: proofs\<close>

lemma is_ws_space [simp]: "is_ws 32"
  by (simp add: is_ws_def)

lemma filter_nonws_dropWhile:
  "filter (\<lambda>c. \<not> is_ws c) (dropWhile is_ws cs) = filter (\<lambda>c. \<not> is_ws c) cs"
  by (induction cs) auto

lemma filter_nonws_replace_ws:
  "filter (\<lambda>c. \<not> is_ws c) (replace_ws s) = filter (\<lambda>c. \<not> is_ws c) s"
  by (induction s rule: replace_ws.induct) (auto simp: filter_nonws_dropWhile)

lemma filter_nonws_trim:
  "filter (\<lambda>c. \<not> is_ws c) (trim s) = filter (\<lambda>c. \<not> is_ws c) s"
proof -
  have "filter (\<lambda>c. \<not> is_ws c) (rev (dropWhile is_ws (rev t))) = filter (\<lambda>c. \<not> is_ws c) t" for t
    by (metis filter_nonws_dropWhile rev_filter rev_rev_ident)
  then show ?thesis
    by (simp add: trim_def filter_nonws_dropWhile)
qed

lemma trim_prefix: "\<exists>w. dropWhile is_ws s = trim s @ w \<and> (\<forall>c\<in>set w. is_ws c)"
proof -
  let ?d = "dropWhile is_ws s"
  have "rev ?d = takeWhile is_ws (rev ?d) @ dropWhile is_ws (rev ?d)"
    by simp
  then have "?d = rev (dropWhile is_ws (rev ?d)) @ rev (takeWhile is_ws (rev ?d))"
    by (metis rev_append rev_rev_ident)
  moreover have "\<forall>c\<in>set (rev (takeWhile is_ws (rev ?d))). is_ws c"
    by (auto dest: set_takeWhileD)
  ultimately show ?thesis
    unfolding trim_def by blast
qed

lemma trim_no_leading: "dropWhile is_ws (trim s) = trim s"
proof (cases "trim s")
  case Nil
  then show ?thesis by simp
next
  case (Cons c cs)
  obtain w where w: "dropWhile is_ws s = trim s @ w"
    using trim_prefix by blast
  then have "hd (dropWhile is_ws s) = c"
    using Cons by simp
  moreover have "dropWhile is_ws s \<noteq> []"
    using w Cons by simp
  ultimately have "\<not> is_ws c"
    using hd_dropWhile by metis
  then show ?thesis
    using Cons by simp
qed

lemma trim_no_trailing: "dropWhile is_ws (rev (trim s)) = rev (trim s)"
  by (simp add: trim_def)

lemma trim_idem: "trim (trim s) = trim s"
  using trim_no_leading [of s] trim_no_trailing [of s]
  by (metis rev_rev_ident trim_def)

lemma trim_fixed: "dropWhile is_ws s = s \<Longrightarrow> dropWhile is_ws (rev s) = rev s \<Longrightarrow> trim s = s"
  by (simp add: trim_def)

lemma set_trim: "set (trim s) \<subseteq> set s"
  unfolding trim_def by (metis set_dropWhileD set_rev subsetI)

lemma trim_eq_Nil: "trim s = [] \<longleftrightarrow> (\<forall>c\<in>set s. is_ws c)"
proof -
  have "trim s = [] \<longleftrightarrow> filter (\<lambda>c. \<not> is_ws c) (trim s) = []"
  proof
    assume "filter (\<lambda>c. \<not> is_ws c) (trim s) = []"
    then have all: "\<forall>c\<in>set (trim s). is_ws c"
      by (simp add: filter_empty_conv)
    show "trim s = []"
    proof (rule ccontr)
      assume "trim s \<noteq> []"
      then have "\<not> is_ws (hd (trim s))"
        using trim_no_leading [of s] hd_dropWhile [of is_ws "trim s"] by simp
      with all \<open>trim s \<noteq> []\<close> show False by simp
    qed
  qed simp
  then show ?thesis
    by (simp add: filter_nonws_trim filter_empty_conv)
qed

lemma replace_ws_nonws_head: "\<not> is_ws c \<Longrightarrow> replace_ws (c # cs) = c # replace_ws cs"
  by simp

lemma single_spaced_tl: "single_spaced (c # cs) \<Longrightarrow> single_spaced cs"
  by (cases cs) (auto split: if_splits)

lemma single_spaced_replace_ws: "single_spaced (replace_ws s)"
proof (induction s rule: replace_ws.induct)
  case 1
  then show ?case by simp
next
  case (2 c cs)
  show ?case
  proof (cases "is_ws c")
    case True
    let ?d = "dropWhile is_ws cs"
    have ih: "single_spaced (replace_ws ?d)"
      using 2 True by simp
    have unfold: "replace_ws (c # cs) = 32 # replace_ws ?d"
      using True by simp
    show ?thesis
    proof (cases ?d)
      case Nil
      then have "replace_ws ?d = []"
        by (simp only: replace_ws.simps)
      then show ?thesis
        unfolding unfold by simp
    next
      case (Cons e es)
      then have "\<not> is_ws e"
        using hd_dropWhile [of is_ws cs] by simp
      then have "replace_ws ?d = e # replace_ws es"
        unfolding Cons by simp
      then show ?thesis
        unfolding unfold using ih \<open>\<not> is_ws e\<close> by simp
    qed
  next
    case False
    then have ih: "single_spaced (replace_ws cs)"
      using 2 by simp
    show ?thesis
      using False ih by (cases "replace_ws cs") auto
  qed
qed

lemma replace_ws_single_spaced: "single_spaced s \<Longrightarrow> replace_ws s = s"
proof (induction s rule: single_spaced.induct)
  case 1
  then show ?case by simp
next
  case (2 c)
  then show ?case by (simp split: if_splits)
next
  case (3 c d cs)
  then show ?case by (auto split: if_splits)
qed

lemma single_spaced_prefix: "single_spaced (xs @ ys) \<Longrightarrow> single_spaced xs"
proof (induction xs rule: single_spaced.induct)
  case 1
  then show ?case by simp
next
  case (2 c)
  then show ?case by (cases ys) (auto split: if_splits)
next
  case (3 c d cs)
  then show ?case by (auto split: if_splits)
qed

lemma single_spaced_dropWhile: "single_spaced s \<Longrightarrow> single_spaced (dropWhile P s)"
  by (induction s) (auto dest: single_spaced_tl)

lemma single_spaced_trim: "single_spaced s \<Longrightarrow> single_spaced (trim s)"
  using trim_prefix [of s] single_spaced_dropWhile [of s is_ws] single_spaced_prefix
  by metis

lemma norm_idem: "norm (Some (norm s)) = norm s"
proof -
  have "single_spaced (norm s)"
    by (simp add: norm_def single_spaced_trim single_spaced_replace_ws)
  then have "replace_ws (norm s) = norm s"
    by (rule replace_ws_single_spaced)
  then have "norm (Some (norm s)) = trim (norm s)"
    by (simp add: norm_def or_empty_def)
  then show ?thesis
    by (simp add: norm_def trim_idem)
qed

lemma norm_example: "norm (Some (js ''  a   b '')) = js ''a b''"
  by (simp add: norm_def or_empty_def js_def trim_def is_ws_def)

lemma find_rev_filter:
  "List.find P (rev xs) = (if filter P xs = [] then None else Some (last (filter P xs)))"
proof (induction xs rule: rev_induct)
  case Nil
  then show ?case by simp
next
  case (snoc x xs)
  then show ?case by simp
qed

lemma last_filter_last: "xs \<noteq> [] \<Longrightarrow> P (last xs) \<Longrightarrow> last (filter P xs) = last xs"
  by (induction xs rule: rev_induct) auto

lemma js_split_not_Nil [simp]: "js_split sep s \<noteq> []"
  by (induction s) (auto split: list.splits)

lemma js_split_no_sep: "p \<in> set (js_split sep s) \<Longrightarrow> sep \<notin> set p"
  by (induction s arbitrary: p) (auto split: if_splits list.splits)

lemma js_split_single: "sep \<notin> set s \<Longrightarrow> js_split sep s = [s]"
  by (induction s) auto

lemma extractCountry_spec: "extractCountry l = spec_extractCountry l"
  by (simp add: extractCountry_def spec_extractCountry_def find_rev_filter Let_def)

lemma extractCountry_index_last:
  "extractCountry_index l = trim (last (js_split 44 (normaliseText l)))"
  by (simp add: extractCountry_index_def Let_def last_map)

lemma extractCountry_index_spec:
  assumes "extractCountry_index l \<noteq> []"
  shows "extractCountry_index l = spec_extractCountry l"
proof -
  let ?parts = "map trim (js_split 44 (norm l))"
  have parts: "?parts \<noteq> []" by simp
  have idx: "extractCountry_index l = last ?parts"
    by (simp add: extractCountry_index_def Let_def normaliseText_def norm_def)
  with assms have "last ?parts \<noteq> []" by simp
  then have "last (filter (\<lambda>p. p \<noteq> []) ?parts) = last ?parts"
    using parts by (simp add: last_filter_last)
  moreover have "filter (\<lambda>p. p \<noteq> []) ?parts \<noteq> []"
    using parts \<open>last ?parts \<noteq> []\<close>
    by (metis (mono_tags, lifting) filter_empty_conv last_in_set)
  ultimately show ?thesis
    using idx by (simp add: spec_extractCountry_def find_rev_filter)
qed

lemma extractCountry_no_comma: "44 \<notin> set (extractCountry l)"
proof -
  let ?parts = "filter (\<lambda>p. p \<noteq> []) (map trim (js_split 44 (norm l)))"
  show ?thesis
  proof (cases "?parts = []")
    case True
    then show ?thesis by (simp add: extractCountry_def Let_def)
  next
    case False
    then have "last ?parts \<in> set ?parts" by (rule last_in_set)
    then obtain q where q: "q \<in> set (js_split 44 (norm l))" and eq: "last ?parts = trim q"
      by auto
    have "44 \<notin> set q" using q by (rule js_split_no_sep)
    then have "44 \<notin> set (trim q)" using set_trim by blast
    then show ?thesis using False eq by (simp add: extractCountry_def Let_def)
  qed
qed

lemma extractCountry_trimmed: "trim (extractCountry l) = extractCountry l"
proof -
  let ?parts = "filter (\<lambda>p. p \<noteq> []) (map trim (js_split 44 (norm l)))"
  show ?thesis
  proof (cases "?parts = []")
    case True
    then show ?thesis by (simp add: extractCountry_def Let_def trim_def)
  next
    case False
    then have "last ?parts \<in> set ?parts" by (rule last_in_set)
    then obtain q where "last ?parts = trim q"
      by auto
    then show ?thesis using False by (simp add: extractCountry_def Let_def trim_idem)
  qed
qed

lemma norm_trimmed: "trim (norm l) = norm l"
  by (simp add: norm_def trim_idem)

lemma extractCountry_no_comma_input:
  assumes "44 \<notin> set (norm l)"
  shows "extractCountry l = norm l"
  using assms by (simp add: extractCountry_def Let_def js_split_single norm_trimmed)

lemmas eval_defs = norm_def normaliseText_def or_empty_def js_def trim_def is_ws_def
  extractCountry_def extractCountry_index_def spec_extractCountry_def Let_def

subsection \<open>Normalization as words joined by single spaces\<close>

lemma ws_words_Nil: "dropWhile is_ws s = [] \<Longrightarrow> ws_words s = []"
  by (subst ws_words.simps) (simp del: dropWhile_eq_Nil_conv)

lemma ws_words_Cons:
  "dropWhile is_ws s = c # cs \<Longrightarrow>
   ws_words s = (c # takeWhile (\<lambda>x. \<not> is_ws x) cs) # ws_words (dropWhile (\<lambda>x. \<not> is_ws x) cs)"
  by (subst ws_words.simps) simp

lemma unwords_Cons: "vs \<noteq> [] \<Longrightarrow> unwords (w # vs) = w @ 32 # unwords vs"
  by (cases vs) simp_all

lemma ws_words_nonempty: "w \<in> set (ws_words s) \<Longrightarrow> w \<noteq> []"
proof (induction s arbitrary: w rule: ws_words.induct)
  case (1 s)
  show ?case
  proof (cases "dropWhile is_ws s")
    case Nil
    then show ?thesis using "1.prems" by (simp add: ws_words_Nil)
  next
    case (Cons c cs)
    then show ?thesis
      using "1.prems" "1.IH" [OF Cons] by (auto simp: ws_words_Cons)
  qed
qed

lemma unwords_eq_Nil: "\<forall>w\<in>set vs. w \<noteq> [] \<Longrightarrow> unwords vs = [] \<Longrightarrow> vs = []"
  by (induction vs rule: unwords.induct) auto

lemma replace_ws_split:
  "replace_ws cs = takeWhile (\<lambda>x. \<not> is_ws x) cs @ replace_ws (dropWhile (\<lambda>x. \<not> is_ws x) cs)"
  by (induction cs) auto

lemma trim_ws_head: "is_ws c \<Longrightarrow> trim (c # x) = trim x"
  by (simp add: trim_def)

lemma trim_replace_ws_dropWhile: "trim (replace_ws s) = trim (replace_ws (dropWhile is_ws s))"
proof (cases s)
  case Nil
  then show ?thesis by simp
next
  case (Cons c cs)
  show ?thesis
  proof (cases "is_ws c")
    case True
    then have "replace_ws s = 32 # replace_ws (dropWhile is_ws s)"
      using Cons by simp
    moreover have "is_ws 32"
      by (simp add: is_ws_def)
    ultimately show ?thesis by (simp add: trim_ws_head)
  next
    case False
    then show ?thesis using Cons by simp
  qed
qed

lemma trim_nonws_head: "\<not> is_ws c \<Longrightarrow> trim (c # x) = rev (dropWhile is_ws (rev (c # x)))"
  by (simp add: trim_def)

lemma dropWhile_none: "\<forall>x\<in>set xs. \<not> P x \<Longrightarrow> dropWhile P xs = xs"
  by (cases xs) auto

lemma trim_all_nonws: "\<forall>x\<in>set w. \<not> is_ws x \<Longrightarrow> trim w = w"
proof -
  assume a: "\<forall>x\<in>set w. \<not> is_ws x"
  then have "dropWhile is_ws w = w"
    by (rule dropWhile_none)
  moreover have "\<forall>x\<in>set (rev w). \<not> is_ws x"
    using a by simp
  then have "dropWhile is_ws (rev w) = rev w"
    by (rule dropWhile_none)
  ultimately show ?thesis by (simp add: trim_def)
qed

lemma trimEnd_all_ws:
  "\<forall>x\<in>set z. is_ws x \<Longrightarrow> rev (dropWhile is_ws (rev (w @ z))) = rev (dropWhile is_ws (rev w))"
proof -
  assume "\<forall>x\<in>set z. is_ws x"
  then have "\<And>x. x \<in> set (rev z) \<Longrightarrow> is_ws x"
    by simp
  then have "dropWhile is_ws (rev z @ rev w) = dropWhile is_ws (rev w)"
    by (rule dropWhile_append2)
  then show ?thesis by simp
qed

lemma trimEnd_some_nonws:
  "\<not> (\<forall>x\<in>set y. is_ws x) \<Longrightarrow>
   rev (dropWhile is_ws (rev (w @ y))) = w @ rev (dropWhile is_ws (rev y))"
proof -
  assume "\<not> (\<forall>x\<in>set y. is_ws x)"
  then obtain x where "x \<in> set (rev y)" "\<not> is_ws x"
    by auto
  then have "dropWhile is_ws (rev y @ rev w) = dropWhile is_ws (rev y) @ rev w"
    by (rule dropWhile_append1)
  then show ?thesis by simp
qed

lemma replace_ws_head:
  "dropWhile is_ws (replace_ws (dropWhile is_ws s)) = replace_ws (dropWhile is_ws s)"
proof (cases "dropWhile is_ws s")
  case Nil
  show ?thesis unfolding Nil by simp
next
  case (Cons c cs)
  then have "\<not> is_ws c"
    using hd_dropWhile [of is_ws s] by simp
  then show ?thesis unfolding Cons by simp
qed

lemma norm_words: "trim (replace_ws s) = unwords (ws_words s)"
proof (induction s rule: length_induct)
  case (1 s)
  let ?nws = "\<lambda>x. \<not> is_ws x"
  show ?case
  proof (cases "dropWhile is_ws s")
    case Nil
    have "trim (replace_ws s) = trim (replace_ws [])"
      using trim_replace_ws_dropWhile [of s] unfolding Nil .
    then show ?thesis
      using ws_words_Nil [OF Nil] by (simp add: trim_def)
  next
    case (Cons c cs)
    then have c: "\<not> is_ws c"
      using hd_dropWhile [of is_ws s] by simp
    let ?w = "c # takeWhile ?nws cs"
    let ?r = "dropWhile ?nws cs"
    have words: "ws_words s = ?w # ws_words ?r"
      using Cons by (rule ws_words_Cons)
    have w_nws: "\<forall>x\<in>set ?w. \<not> is_ws x"
      using c by (auto dest: set_takeWhileD)
    have rep: "replace_ws (c # cs) = ?w @ replace_ws ?r"
      using c replace_ws_split [of cs] by simp
    have lhs: "trim (replace_ws s) = rev (dropWhile is_ws (rev (?w @ replace_ws ?r)))"
      using trim_replace_ws_dropWhile [of s] Cons rep c by (simp add: trim_def)
    have "length ?r \<le> length cs"
      by (rule length_dropWhile_le)
    moreover have "length (c # cs) \<le> length s"
      using Cons length_dropWhile_le [of is_ws s] by simp
    ultimately have lt: "length ?r < length s"
      by simp
    have ih: "trim (replace_ws ?r) = unwords (ws_words ?r)"
      by (rule "1" [rule_format, OF lt])
    show ?thesis
    proof (cases "trim (replace_ws ?r) = []")
      case True
      then have "\<forall>x\<in>set (replace_ws ?r). is_ws x"
        unfolding trim_eq_Nil .
      then have "trim (replace_ws s) = rev (dropWhile is_ws (rev ?w))"
        unfolding lhs by (rule trimEnd_all_ws)
      also have "\<dots> = trim ?w"
        using c by (simp add: trim_def)
      also have "\<dots> = ?w"
        by (rule trim_all_nonws [OF w_nws])
      finally have l: "trim (replace_ws s) = ?w" .
      have "\<forall>w\<in>set (ws_words ?r). w \<noteq> []"
      proof
        fix w
        assume "w \<in> set (ws_words ?r)"
        then show "w \<noteq> []"
          by (rule ws_words_nonempty)
      qed
      moreover have "unwords (ws_words ?r) = []"
        using True ih by simp
      ultimately have "ws_words ?r = []"
        by (rule unwords_eq_Nil)
      then show ?thesis
        using l words by simp
    next
      case False
      then have ne: "ws_words ?r \<noteq> []"
        using ih by auto
      have "?r \<noteq> []"
      proof
        assume "?r = []"
        then have "trim (replace_ws ?r) = []"
          by (simp add: trim_def del: dropWhile_eq_Nil_conv)
        with False show False ..
      qed
      then obtain e es where r: "?r = e # es"
        unfolding neq_Nil_conv by blast
      have "\<not> ?nws (hd ?r)"
        using \<open>?r \<noteq> []\<close> by (rule hd_dropWhile)
      then have e: "is_ws e"
        unfolding r by simp
      let ?y = "replace_ws (dropWhile is_ws es)"
      have ry: "replace_ws ?r = 32 # ?y"
        using r e by simp
      have ty: "trim (replace_ws ?r) = trim ?y"
        unfolding ry by (simp add: trim_ws_head)
      have "dropWhile is_ws ?y = ?y"
        by (rule replace_ws_head)
      then have ty': "trim ?y = rev (dropWhile is_ws (rev ?y))"
        by (simp add: trim_def)
      have "trim ?y \<noteq> []"
        using False unfolding ty .
      then have y_some: "\<not> (\<forall>x\<in>set ?y. is_ws x)"
        unfolding trim_eq_Nil .
      have "trim (replace_ws s) = rev (dropWhile is_ws (rev ((?w @ [32]) @ ?y)))"
        unfolding lhs ry by simp
      also have "\<dots> = (?w @ [32]) @ rev (dropWhile is_ws (rev ?y))"
        using y_some by (rule trimEnd_some_nonws)
      also have "\<dots> = ?w @ 32 # trim (replace_ws ?r)"
        using ty ty' by simp
      finally have "trim (replace_ws s) = ?w @ 32 # unwords (ws_words ?r)"
        using ih by simp
      then show ?thesis
        using words ne by (simp add: unwords_Cons)
    qed
  qed
qed

lemma norm_spec: "norm s = spec_normalize s"
  by (simp add: norm_def spec_normalize_def norm_words)

section \<open>Page extractor and pagination: proofs\<close>

subsection \<open>Map and extraction\<close>

lemma map_set_values: "set (map snd (map_set k v m)) \<subseteq> insert v (set (map snd m))"
  by (induction m) auto

lemma map_set_keys: "map fst (map_set k v m) = (if k \<in> set (map fst m) then map fst m else map fst m @ [k])"
  by (induction m) auto

lemma map_set_distinct: "distinct (map fst m) \<Longrightarrow> distinct (map fst (map_set k v m))"
  by (simp add: map_set_keys)

lemma map_set_all: "P v \<Longrightarrow> \<forall>x\<in>set (map_values m). P x \<Longrightarrow> \<forall>x\<in>set (map_values (map_set k v m)). P x"
  using map_set_values [of k v m] unfolding map_values_def by blast

lemma merge_jobs_all:
  "\<forall>x\<in>set b. P x \<Longrightarrow> \<forall>x\<in>set (map_values m). P x \<Longrightarrow> \<forall>x\<in>set (map_values (merge_jobs b m)). P x"
  unfolding merge_jobs_def
proof (induction b arbitrary: m)
  case Nil
  then show ?case by simp
next
  case (Cons j b)
  have "\<forall>x\<in>set (map_values (map_set (href j) j m)). P x"
    using Cons.prems by (intro map_set_all) simp_all
  then show ?case
    using Cons by simp
qed

lemma add_anchor_all:
  assumes "\<forall>x\<in>set (map_values m). has_link_and_title x \<and> trim (title x) = title x"
  shows "\<forall>x\<in>set (map_values (add_anchor h a m)). has_link_and_title x \<and> trim (title x) = title x"
proof (cases "extractable h a")
  case False
  then have "add_anchor h a m = m"
    by (auto simp: add_anchor_def extractable_def split: option.splits)
  then show ?thesis using assms by simp
next
  case True
  then obtain t where t: "a_textContent a = Some t" "trim t \<noteq> []" "h \<noteq> []"
    by (auto simp: extractable_def split: option.splits)
  let ?j = "\<lparr>title = trim t, href = h, location = pick (card_location a),
                 category = pick (card_category a), team = pick (card_team a)\<rparr>"
  have "add_anchor h a m = map_set h ?j m"
    using t by (simp add: add_anchor_def)
  moreover have "has_link_and_title ?j \<and> trim (title ?j) = title ?j"
    using t by (simp add: has_link_and_title_def trim_idem)
  ultimately show ?thesis
    using assms map_set_all [of "\<lambda>x. has_link_and_title x \<and> trim (title x) = title x" ?j m h]
    by presburger
qed

lemma fold_add_anchor_all:
  "\<forall>x\<in>set (map_values m). has_link_and_title x \<and> trim (title x) = title x \<Longrightarrow>
   \<forall>x\<in>set (map_values (fold (\<lambda>a. add_anchor (g a) a) as m)). has_link_and_title x \<and> trim (title x) = title x"
proof (induction as arbitrary: m)
  case Nil
  then show ?case by simp
next
  case (Cons a as)
  have "\<forall>x\<in>set (map_values (add_anchor (g a) a m)). has_link_and_title x \<and> trim (title x) = title x"
    using Cons.prems by (rule add_anchor_all)
  then have "\<forall>x\<in>set (map_values (fold (\<lambda>a. add_anchor (g a) a) as (add_anchor (g a) a m))).
      has_link_and_title x \<and> trim (title x) = title x"
    by (rule Cons.IH)
  then show ?case by simp
qed

lemma evaluate_anchors_ok:
  "j \<in> set (evaluate_anchors as) \<Longrightarrow> has_link_and_title j \<and> trim (title j) = title j"
proof -
  have "\<forall>x\<in>set (map_values (fold (\<lambda>a. add_anchor (a_href a) a) as [])).
      has_link_and_title x \<and> trim (title x) = title x"
    by (rule fold_add_anchor_all) (simp add: map_values_def)
  then show "j \<in> set (evaluate_anchors as) \<Longrightarrow> has_link_and_title j \<and> trim (title j) = title j"
    unfolding evaluate_anchors_def by blast
qed

lemma evaluate_anchors_bolt_ok:
  "j \<in> set (evaluate_anchors_bolt as) \<Longrightarrow> has_link_and_title j \<and> trim (title j) = title j"
proof -
  have "\<forall>x\<in>set (map_values (fold (\<lambda>a. add_anchor (href_bolt a) a) as [])).
      has_link_and_title x \<and> trim (title x) = title x"
    by (rule fold_add_anchor_all) (simp add: map_values_def)
  then show "j \<in> set (evaluate_anchors_bolt as) \<Longrightarrow> has_link_and_title j \<and> trim (title j) = title j"
    unfolding evaluate_anchors_bolt_def by blast
qed

lemma add_anchor_skip: "\<not> extractable h a \<Longrightarrow> add_anchor h a m = m"
  by (auto simp: add_anchor_def extractable_def split: option.splits)

lemma fold_add_anchor_filter:
  "fold (\<lambda>a. add_anchor (g a) a) as m = fold (\<lambda>a. add_anchor (g a) a) (filter (\<lambda>a. extractable (g a) a) as) m"
  by (induction as arbitrary: m) (simp_all add: add_anchor_skip)

lemma evaluate_anchors_filter:
  "evaluate_anchors as = evaluate_anchors (filter (\<lambda>a. extractable (a_href a) a) as)"
  unfolding evaluate_anchors_def using fold_add_anchor_filter [of a_href as "[]"] by simp

lemma evaluate_anchors_bolt_filter:
  "evaluate_anchors_bolt as = evaluate_anchors_bolt (filter (\<lambda>a. extractable (href_bolt a) a) as)"
  unfolding evaluate_anchors_bolt_def using fold_add_anchor_filter [of href_bolt as "[]"] by simp

lemma scrapePage_ok: "scrapePage pg = Inr b \<Longrightarrow> j \<in> set b \<Longrightarrow> has_link_and_title j \<and> trim (title j) = title j"
  using evaluate_anchors_ok [of j "anchors pg"] by (auto simp: scrapePage_def split: if_splits)

lemma scrapePage_index_ok: "scrapePage_index pg = Inr b \<Longrightarrow> j \<in> set b \<Longrightarrow> has_link_and_title j \<and> trim (title j) = title j"
  using evaluate_anchors_ok [of j "anchors pg"] by (auto simp: scrapePage_index_def split: if_splits)

lemma scrapePage_bolt_ok: "scrapePage_bolt pg = Inr b \<Longrightarrow> j \<in> set b \<Longrightarrow> has_link_and_title j \<and> trim (title j) = title j"
  using evaluate_anchors_bolt_ok [of j "anchors pg"] by (auto simp: scrapePage_bolt_def split: if_splits)

subsection \<open>The general offset loop\<close>

lemma merge_jobs_Nil [simp]: "merge_jobs [] m = m"
  by (simp add: merge_jobs_def)

lemma pages_loop_cap: "\<not> i < cap \<Longrightarrow> pages_loop f ps cap i m = (0, Inr m)"
  by (subst pages_loop.simps) simp

lemma pages_loop_err: "i < cap \<Longrightarrow> f i = Inl e \<Longrightarrow> pages_loop f ps cap i m = (1, Inl e)"
  by (subst pages_loop.simps) simp

lemma pages_loop_halt:
  "i < cap \<Longrightarrow> f i = Inr b \<Longrightarrow> \<not> continues ps (f i) \<Longrightarrow>
   pages_loop f ps cap i m = (1, Inr (merge_jobs b m))"
  by (subst pages_loop.simps) (auto simp: continues_def)

lemma pages_loop_step:
  "i < cap \<Longrightarrow> continues ps (f i) \<Longrightarrow>
   pages_loop f ps cap i m =
     (case pages_loop f ps cap (i + 1) (merge_jobs (batch_of (f i)) m) of (n, r) \<Rightarrow> (Suc n, r))"
  by (subst pages_loop.simps) (auto simp: continues_def batch_of_def split: sum.splits)

lemma pages_loop_cases:
  obtains (cap) "\<not> i < cap" "pages_loop f ps cap i m = (0, Inr m)"
  | (err) e where "i < cap" "f i = Inl e" "pages_loop f ps cap i m = (1, Inl e)"
  | (halt) b where "i < cap" "f i = Inr b" "\<not> continues ps (f i)"
      "pages_loop f ps cap i m = (1, Inr (merge_jobs b m))"
  | (step) n r where "i < cap" "continues ps (f i)"
      "pages_loop f ps cap (i + 1) (merge_jobs (batch_of (f i)) m) = (n, r)"
      "pages_loop f ps cap i m = (Suc n, r)"
proof (cases "i < cap")
  case False
  then show ?thesis using cap pages_loop_cap by blast
next
  case True
  show ?thesis
  proof (cases "f i")
    case (Inl e)
    then show ?thesis using err True pages_loop_err by blast
  next
    case (Inr b)
    show ?thesis
    proof (cases "continues ps (f i)")
      case False
      then show ?thesis using halt True Inr pages_loop_halt by blast
    next
      case c: True
      obtain n r where nr: "pages_loop f ps cap (i + 1) (merge_jobs (batch_of (f i)) m) = (n, r)"
        by (cases "pages_loop f ps cap (i + 1) (merge_jobs (batch_of (f i)) m)") auto
      then have "pages_loop f ps cap i m = (Suc n, r)"
        using pages_loop_step [where i = i and cap = cap and ps = ps and f = f and m = m] True c
        by simp
      then show ?thesis using step True c nr by blast
    qed
  qed
qed

lemma pages_loop_bound: "pages_loop f ps cap i m = (n, r) \<Longrightarrow> n \<le> cap - i"
proof (induction "cap - i" arbitrary: i m n r)
  case 0
  then show ?case by (simp add: pages_loop_cap)
next
  case (Suc d)
  show ?case
  proof (cases rule: pages_loop_cases [of i cap f ps m])
    case cap
    then show ?thesis using Suc.prems by simp
  next
    case (err e)
    then show ?thesis using Suc.prems by simp
  next
    case (halt b)
    then show ?thesis using Suc.prems by simp
  next
    case (step n' r')
    have "n' \<le> cap - (i + 1)"
      using Suc.hyps(1) [of "i + 1"] Suc.hyps(2) step(3) by simp
    then show ?thesis using step Suc.prems by simp
  qed
qed

lemma pages_loop_positive: "pages_loop f ps cap i m = (n, r) \<Longrightarrow> i < cap \<Longrightarrow> 0 < n"
  by (cases rule: pages_loop_cases [of i cap f ps m]) auto

lemma pages_loop_before_last:
  "pages_loop f ps cap i m = (n, r) \<Longrightarrow> i \<le> k \<Longrightarrow> k + 1 < i + n \<Longrightarrow> continues ps (f k)"
proof (induction "cap - i" arbitrary: i m n r)
  case 0
  then show ?case by (simp add: pages_loop_cap)
next
  case (Suc d)
  show ?case
  proof (cases rule: pages_loop_cases [of i cap f ps m])
    case cap
    then show ?thesis using Suc.prems by simp
  next
    case (err e)
    then show ?thesis using Suc.prems by simp
  next
    case (halt b)
    then show ?thesis using Suc.prems by simp
  next
    case (step n' r')
    show ?thesis
    proof (cases "k = i")
      case True
      then show ?thesis using step by simp
    next
      case False
      then have "i + 1 \<le> k" "k + 1 < (i + 1) + n'"
        using Suc.prems step by auto
      then show ?thesis
        using Suc.hyps(1) [of "i + 1", OF _ step(3)] Suc.hyps(2) by simp
    qed
  qed
qed

lemma pages_loop_early:
  "pages_loop f ps cap i m = (n, r) \<Longrightarrow> i + n < cap \<Longrightarrow> 0 < n \<and> \<not> continues ps (f (i + n - 1))"
proof (induction "cap - i" arbitrary: i m n r)
  case 0
  then show ?case by simp
next
  case (Suc d)
  show ?case
  proof (cases rule: pages_loop_cases [of i cap f ps m])
    case cap
    then show ?thesis using Suc.prems by simp
  next
    case (err e)
    then show ?thesis using Suc.prems by (simp add: continues_def)
  next
    case (halt b)
    then show ?thesis using Suc.prems by simp
  next
    case (step n' r')
    then have "0 < n' \<and> \<not> continues ps (f ((i + 1) + n' - 1))"
      using Suc.hyps(1) [of "i + 1", OF _ step(3)] Suc.hyps(2) Suc.prems by simp
    then show ?thesis using step Suc.prems by simp
  qed
qed

lemma merged_pages_upt: "i < j \<Longrightarrow> merged_pages f [i..<j] m = merged_pages f [i + 1..<j] (merge_jobs (batch_of (f i)) m)"
  by (simp add: merged_pages_def upt_conv_Cons)

lemma pages_loop_result:
  "pages_loop f ps cap i m = (n, r) \<Longrightarrow>
   (case r of
      Inl e \<Rightarrow> 0 < n \<and> f (i + n - 1) = Inl e
    | Inr m' \<Rightarrow> m' = merged_pages f [i..<i + n] m)"
proof (induction "cap - i" arbitrary: i m n r)
  case 0
  then show ?case by (auto simp: pages_loop_cap merged_pages_def)
next
  case (Suc d)
  show ?case
  proof (cases rule: pages_loop_cases [of i cap f ps m])
    case cap
    then show ?thesis using Suc.prems by (auto simp: merged_pages_def)
  next
    case (err e)
    then show ?thesis using Suc.prems by simp
  next
    case (halt b)
    then show ?thesis using Suc.prems by (auto simp: merged_pages_def batch_of_def)
  next
    case (step n' r')
    have ih: "(case r' of Inl e \<Rightarrow> 0 < n' \<and> f ((i + 1) + n' - 1) = Inl e
               | Inr m' \<Rightarrow> m' = merged_pages f [i + 1..<(i + 1) + n'] (merge_jobs (batch_of (f i)) m))"
      using Suc.hyps(1) [of "i + 1", OF _ step(3)] Suc.hyps(2) by simp
    have nr: "n = Suc n'" "r = r'"
      using step Suc.prems by simp_all
    show ?thesis
    proof (cases r')
      case (Inl e)
      then show ?thesis using ih nr by simp
    next
      case (Inr m')
      then show ?thesis using ih nr merged_pages_upt [of i "i + Suc n'" f m] by simp
    qed
  qed
qed

subsection \<open>The loops of the scripts as instances\<close>

lemma scrapeJobs_loop_pages:
  "\<forall>s\<in>seen. s < i * PAGE_SIZE \<Longrightarrow>
   scrapeJobs_loop st i seen m =
     (case pages_loop (\<lambda>k. scrapePage (st k)) (int PAGE_SIZE) MAX_PAGES i m of
        (n, r) \<Rightarrow> (map (\<lambda>k. k * PAGE_SIZE) [i..<i + n], r))"
proof (induction "MAX_PAGES - i" arbitrary: i seen m)
  case 0
  then have "\<not> i < MAX_PAGES" by simp
  then show ?case
    by (subst scrapeJobs_loop.simps) (simp add: pages_loop_cap)
next
  case (Suc d)
  have fresh: "i * PAGE_SIZE \<notin> seen"
    using Suc.prems by auto
  let ?f = "\<lambda>k. scrapePage (st k)"
  show ?case
  proof (cases rule: pages_loop_cases [of i MAX_PAGES ?f "int PAGE_SIZE" m])
    case cap
    then show ?thesis
      by (subst scrapeJobs_loop.simps) simp
  next
    case (err e)
    then show ?thesis
      using fresh by (subst scrapeJobs_loop.simps) (simp add: Let_def)
  next
    case (halt b)
    then show ?thesis
      using fresh by (subst scrapeJobs_loop.simps) (auto simp: Let_def continues_def)
  next
    case (step n r)
    obtain b where b: "scrapePage (st i) = Inr b" "length b \<noteq> 0" "\<not> length b < PAGE_SIZE"
      using step(2) by (auto simp: continues_def split: sum.splits)
    have seen': "\<forall>s\<in>insert (i * PAGE_SIZE) seen. s < (i + 1) * PAGE_SIZE"
      using Suc.prems by (auto simp: PAGE_SIZE_def)
    have ih: "scrapeJobs_loop st (i + 1) (insert (i * PAGE_SIZE) seen) (merge_jobs b m) =
        (map (\<lambda>k. k * PAGE_SIZE) [i + 1..<(i + 1) + n], r)"
      using Suc.hyps(1) [of "i + 1", OF _ seen', of "merge_jobs b m"] Suc.hyps(2) step(3) b(1)
      by (simp add: batch_of_def)
    show ?thesis
      using fresh step(1,4) b ih
      by (subst scrapeJobs_loop.simps) (simp add: Let_def upt_conv_Cons)
  qed
qed

lemma offset_loop_bolt_pages:
  "offset_loop_bolt cfg st i m =
     (case pages_loop (\<lambda>k. scrapePage_bolt (st k)) (cfg_PAGE_SIZE cfg) (nat (cfg_MAX_PAGES cfg)) i m of
        (n, r) \<Rightarrow> (map (\<lambda>k. int k * cfg_PAGE_SIZE cfg) [i..<i + n], r))"
proof (induction "nat (cfg_MAX_PAGES cfg) - i" arbitrary: i m)
  case 0
  then have "\<not> int i < cfg_MAX_PAGES cfg" "\<not> i < nat (cfg_MAX_PAGES cfg)" by auto
  then show ?case
    by (subst offset_loop_bolt.simps) (simp add: pages_loop_cap)
next
  case (Suc d)
  let ?f = "\<lambda>k. scrapePage_bolt (st k)"
  show ?case
  proof (cases rule: pages_loop_cases [of i "nat (cfg_MAX_PAGES cfg)" ?f "cfg_PAGE_SIZE cfg" m])
    case cap
    then have "\<not> int i < cfg_MAX_PAGES cfg" by auto
    then show ?thesis
      using cap by (subst offset_loop_bolt.simps) simp
  next
    case (err e)
    then have "int i < cfg_MAX_PAGES cfg" by auto
    then show ?thesis
      using err by (subst offset_loop_bolt.simps) (simp add: Let_def)
  next
    case (halt b)
    then have "int i < cfg_MAX_PAGES cfg" by auto
    then show ?thesis
      using halt by (subst offset_loop_bolt.simps) (auto simp: Let_def continues_def)
  next
    case (step n r)
    then have lt: "int i < cfg_MAX_PAGES cfg" by auto
    obtain b where b: "scrapePage_bolt (st i) = Inr b" "length b \<noteq> 0"
        "\<not> int (length b) < cfg_PAGE_SIZE cfg"
      using step(2) by (auto simp: continues_def split: sum.splits)
    have ih: "offset_loop_bolt cfg st (i + 1) (merge_jobs b m) =
        (map (\<lambda>k. int k * cfg_PAGE_SIZE cfg) [i + 1..<(i + 1) + n], r)"
      using Suc.hyps(1) [of "i + 1" "merge_jobs b m"] Suc.hyps(2) step(3) b(1)
      by (simp add: batch_of_def)
    show ?thesis
      using lt step(4) b ih
      by (subst offset_loop_bolt.simps) (simp add: Let_def upt_conv_Cons)
  qed
qed

lemma index_loop_of_pages:
  "pages_loop (\<lambda>k. scrapePage_index (st k)) (int PAGE_SIZE) cap i m = (n, r) \<Longrightarrow> i + n < cap \<Longrightarrow>
   scrapeJobs_index_loop st (i * PAGE_SIZE) m loads =
     Some (loads @ map (\<lambda>k. k * PAGE_SIZE) [i..<i + n], r)"
proof (induction "cap - i" arbitrary: i m n r loads)
  case 0
  then show ?case by simp
next
  case (Suc d)
  let ?f = "\<lambda>k. scrapePage_index (st k)"
  have dv: "i * PAGE_SIZE div PAGE_SIZE = i"
    by (simp add: PAGE_SIZE_def)
  show ?case
  proof (cases rule: pages_loop_cases [of i cap ?f "int PAGE_SIZE" m])
    case cap
    then show ?thesis using Suc.prems by simp
  next
    case (err e)
    then show ?thesis
      using Suc.prems dv by (subst scrapeJobs_index_loop.simps) auto
  next
    case (halt b)
    then show ?thesis
      using Suc.prems dv by (subst scrapeJobs_index_loop.simps) (auto simp: continues_def)
  next
    case (step n' r')
    obtain b where b: "scrapePage_index (st i) = Inr b" "length b \<noteq> 0" "\<not> length b < PAGE_SIZE"
      using step(2) by (auto simp: continues_def split: sum.splits)
    have nr: "n = Suc n'" "r = r'"
      using step(4) Suc.prems(1) by simp_all
    have "scrapeJobs_index_loop st ((i + 1) * PAGE_SIZE) (merge_jobs b m) (loads @ [i * PAGE_SIZE]) =
        Some ((loads @ [i * PAGE_SIZE]) @ map (\<lambda>k. k * PAGE_SIZE) [i + 1..<(i + 1) + n'], r')"
      using Suc.hyps(1) [of "i + 1" "merge_jobs b m" n' r' "loads @ [i * PAGE_SIZE]"]
        Suc.hyps(2) step(3) b(1) Suc.prems(2) nr
      by (simp add: batch_of_def)
    then show ?thesis
      using b dv nr
      by (subst scrapeJobs_index_loop.simps) (simp add: upt_conv_Cons algebra_simps)
  qed
qed

lemma pages_of_index_loop:
  assumes "scrapeJobs_index_loop st off m loads = Some y"
  shows "\<forall>i. off = i * PAGE_SIZE \<longrightarrow>
     (\<exists>cap n r. pages_loop (\<lambda>k. scrapePage_index (st k)) (int PAGE_SIZE) cap i m = (n, r)
        \<and> i + n < cap \<and> y = (loads @ map (\<lambda>k. k * PAGE_SIZE) [i..<i + n], r))"
proof (rule scrapeJobs_index_loop.raw_induct [where P = "\<lambda>st off m loads y. \<forall>i. off = i * PAGE_SIZE \<longrightarrow>
     (\<exists>cap n r. pages_loop (\<lambda>k. scrapePage_index (st k)) (int PAGE_SIZE) cap i m = (n, r)
        \<and> i + n < cap \<and> y = (loads @ map (\<lambda>k. k * PAGE_SIZE) [i..<i + n], r))", OF _ assms])
  fix loop :: "site \<Rightarrow> nat \<Rightarrow> job jsmap \<Rightarrow> nat list \<Rightarrow> (nat list \<times> (error + job jsmap)) option"
    and st off m loads y
  assume ih: "\<And>st' off' m' loads' y'. loop st' off' m' loads' = Some y' \<Longrightarrow>
      \<forall>i. off' = i * PAGE_SIZE \<longrightarrow>
        (\<exists>cap n r. pages_loop (\<lambda>k. scrapePage_index (st' k)) (int PAGE_SIZE) cap i m' = (n, r)
          \<and> i + n < cap \<and> y' = (loads' @ map (\<lambda>k. k * PAGE_SIZE) [i..<i + n], r))"
  assume body: "(case scrapePage_index (st (off div PAGE_SIZE)) of
        Inl e \<Rightarrow> Some (loads @ [off], Inl e)
      | Inr jobs' \<Rightarrow>
          if length jobs' = 0 then Some (loads @ [off], Inr m)
          else if length jobs' < PAGE_SIZE then Some (loads @ [off], Inr (merge_jobs jobs' m))
          else loop st (off + PAGE_SIZE) (merge_jobs jobs' m) (loads @ [off])) = Some y"
  let ?f = "\<lambda>k. scrapePage_index (st k)"
  show "\<forall>i. off = i * PAGE_SIZE \<longrightarrow>
     (\<exists>cap n r. pages_loop ?f (int PAGE_SIZE) cap i m = (n, r)
        \<and> i + n < cap \<and> y = (loads @ map (\<lambda>k. k * PAGE_SIZE) [i..<i + n], r))"
  proof (intro allI impI)
    fix i
    assume off: "off = i * PAGE_SIZE"
    then have dv: "off div PAGE_SIZE = i"
      by (simp add: PAGE_SIZE_def)
    show "\<exists>cap n r. pages_loop ?f (int PAGE_SIZE) cap i m = (n, r)
        \<and> i + n < cap \<and> y = (loads @ map (\<lambda>k. k * PAGE_SIZE) [i..<i + n], r)"
    proof (cases "continues (int PAGE_SIZE) (?f i)")
      case False
      show ?thesis
      proof (cases "?f i")
        case (Inl e)
        then have "pages_loop ?f (int PAGE_SIZE) (i + 2) i m = (1, Inl e)"
          by (simp add: pages_loop_err)
        moreover have "y = (loads @ [off], Inl e)"
          using body Inl dv by simp
        ultimately show ?thesis
          using off by (intro exI [of _ "i + 2"] exI [of _ 1] exI [of _ "Inl e"]) simp
      next
        case (Inr b)
        then have "pages_loop ?f (int PAGE_SIZE) (i + 2) i m = (1, Inr (merge_jobs b m))"
          using False by (simp add: pages_loop_halt)
        moreover have "y = (loads @ [off], Inr (merge_jobs b m))"
          using body Inr dv False by (auto simp: continues_def split: if_splits)
        ultimately show ?thesis
          using off by (intro exI [of _ "i + 2"] exI [of _ 1] exI [of _ "Inr (merge_jobs b m)"]) simp
      qed
    next
      case True
      then obtain b where b: "?f i = Inr b" "length b \<noteq> 0" "\<not> length b < PAGE_SIZE"
        by (auto simp: continues_def split: sum.splits)
      then have "loop st (off + PAGE_SIZE) (merge_jobs b m) (loads @ [off]) = Some y"
        using body dv by simp
      then have "\<forall>j. off + PAGE_SIZE = j * PAGE_SIZE \<longrightarrow>
          (\<exists>cap n r. pages_loop ?f (int PAGE_SIZE) cap j (merge_jobs b m) = (n, r)
            \<and> j + n < cap \<and> y = ((loads @ [off]) @ map (\<lambda>k. k * PAGE_SIZE) [j..<j + n], r))"
        by (rule ih)
      moreover have "off + PAGE_SIZE = (i + 1) * PAGE_SIZE"
        using off by simp
      ultimately obtain cap n r where c:
        "pages_loop ?f (int PAGE_SIZE) cap (i + 1) (merge_jobs b m) = (n, r)"
        "(i + 1) + n < cap" "y = ((loads @ [off]) @ map (\<lambda>k. k * PAGE_SIZE) [i + 1..<(i + 1) + n], r)"
        by blast
      have "pages_loop ?f (int PAGE_SIZE) cap i m = (Suc n, r)"
        using pages_loop_step [where i = i and cap = cap and ps = "int PAGE_SIZE" and f = ?f and m = m]
          True c(1,2) b(1)
        by (simp add: batch_of_def)
      then show ?thesis
        using c(2,3) off
        by (intro exI [of _ cap] exI [of _ "Suc n"] exI [of _ r]) (simp add: upt_conv_Cons)
    qed
  qed
qed

lemma index_loop_returns:
  assumes "i \<le> k" "\<not> continues (int PAGE_SIZE) (scrapePage_index (st k))"
  shows "\<exists>n r. pages_loop (\<lambda>k. scrapePage_index (st k)) (int PAGE_SIZE) (k + 2) i m = (n, r)
      \<and> i + n < k + 2
      \<and> scrapeJobs_index_loop st (i * PAGE_SIZE) m loads =
          Some (loads @ map (\<lambda>k. k * PAGE_SIZE) [i..<i + n], r)"
proof -
  let ?f = "\<lambda>k. scrapePage_index (st k)"
  obtain n r where nr: "pages_loop ?f (int PAGE_SIZE) (k + 2) i m = (n, r)"
    by (cases "pages_loop ?f (int PAGE_SIZE) (k + 2) i m") auto
  have "i + n < k + 2"
  proof (rule ccontr)
    assume "\<not> i + n < k + 2"
    then have "k + 1 < i + n" by simp
    then have "continues (int PAGE_SIZE) (?f k)"
      using pages_loop_before_last [OF nr assms(1)] by simp
    then show False using assms(2) by simp
  qed
  then show ?thesis
    using nr index_loop_of_pages [OF nr] by blast
qed

lemma index_loop_diverges:
  assumes "\<forall>k\<ge>i. continues (int PAGE_SIZE) (scrapePage_index (st k))"
  shows "scrapeJobs_index_loop st (i * PAGE_SIZE) m loads = None"
proof (rule ccontr)
  assume "scrapeJobs_index_loop st (i * PAGE_SIZE) m loads \<noteq> None"
  then obtain y where "scrapeJobs_index_loop st (i * PAGE_SIZE) m loads = Some y"
    by auto
  then obtain cap n r where c:
    "pages_loop (\<lambda>k. scrapePage_index (st k)) (int PAGE_SIZE) cap i m = (n, r)" "i + n < cap"
    using pages_of_index_loop by blast
  then have "0 < n \<and> \<not> continues (int PAGE_SIZE) (scrapePage_index (st (i + n - 1)))"
    using pages_loop_early [OF c] by simp
  moreover have "i \<le> i + n - 1"
    using calculation by linarith
  ultimately show False using assms by blast
qed


section \<open>Closed forms of the loops and of the aggregate\<close>

lemmas page_defs = demo_page_def demo_anchor_def empty_page_def scrapePage_def scrapePage_index_def
  scrapePage_bolt_def evaluate_anchors_def evaluate_anchors_bolt_def href_bolt_def add_anchor_def
  pick_def map_values_def trim_def is_ws_def or_empty_def

lemma demo_full: "scrapePage (demo_page [0, 1, 2, 3, 4, 5, 6, 7, 8, 9]) = Inr b \<Longrightarrow> length b = 10"
  by (auto simp: page_defs)

lemma demo_full_len: "length (batch_of (scrapePage (demo_page [0, 1, 2, 3, 4, 5, 6, 7, 8, 9]))) = 10"
  by (simp add: page_defs batch_of_def)

lemma demo_full_index_len: "length (batch_of (scrapePage_index (demo_page [0, 1, 2, 3, 4, 5, 6, 7, 8, 9]))) = 10"
  by (simp add: page_defs batch_of_def)

lemma demo_short_len: "length (batch_of (scrapePage (demo_page [10, 11, 12, 13]))) = 4"
  by (simp add: page_defs batch_of_def)

lemma demo_continues0: "continues (int PAGE_SIZE) (scrapePage (demo_site 0))"
  by (simp add: continues_def demo_site_def PAGE_SIZE_def page_defs)

lemma demo_continues1: "\<not> continues (int PAGE_SIZE) (scrapePage (demo_site 1))"
  by (simp add: continues_def demo_site_def PAGE_SIZE_def page_defs)

lemma demo_loads: "fst (scrapeJobs demo_site now) = [0, 10]"
  by (simp add: scrapeJobs_def scrapeJobs_loop.simps [of demo_site] Let_def demo_site_def
      PAGE_SIZE_def MAX_PAGES_def page_defs split: prod.splits sum.splits)

lemma scrapeJobs_loads:
  "fst (scrapeJobs st now) = map (\<lambda>k. k * PAGE_SIZE) [0..<fst (pages_loop (\<lambda>k. scrapePage (st k)) (int PAGE_SIZE) MAX_PAGES 0 [])]"
  by (simp add: scrapeJobs_def scrapeJobs_loop_pages split: prod.splits sum.splits)

lemma scrapeJobs_index_Some:
  assumes "scrapeJobs_index st now = Some (loads, r)"
  shows "\<exists>cap n q. pages_loop (\<lambda>k. scrapePage_index (st k)) (int PAGE_SIZE) cap 0 [] = (n, q)
     \<and> n < cap \<and> loads = map (\<lambda>k. k * PAGE_SIZE) [0..<n]
     \<and> r = (case q of Inl e \<Rightarrow> Inl e | Inr m \<Rightarrow> Inr (make_payload_index now (map_values m)))"
proof -
  obtain y where y: "scrapeJobs_index_loop st 0 [] [] = Some y"
    using assms by (auto simp: scrapeJobs_index_def split: option.splits)
  then obtain cap n q where c:
    "pages_loop (\<lambda>k. scrapePage_index (st k)) (int PAGE_SIZE) cap 0 [] = (n, q)" "0 + n < cap"
    "y = ([] @ map (\<lambda>k. k * PAGE_SIZE) [0..<0 + n], q)"
    using pages_of_index_loop [OF y] by (metis mult_zero_left)
  then show ?thesis
    using assms y by (intro exI [of _ cap] exI [of _ n] exI [of _ q])
      (auto simp: scrapeJobs_index_def split: sum.splits)
qed

lemma endless_continues: "continues (int PAGE_SIZE) (scrapePage_index (endless_site k))"
  by (simp add: continues_def endless_site_def PAGE_SIZE_def page_defs)


subsection \<open>The aggregate in closed form\<close>

lemma first_sightings_snoc:
  "first_sightings (ks @ [k]) =
     (if k \<in> set (first_sightings ks) then first_sightings ks else first_sightings ks @ [k])"
  by (simp add: first_sightings_def)

lemma set_first_sightings [simp]: "set (first_sightings ks) = set ks"
  by (induction ks rule: rev_induct) (auto simp: first_sightings_snoc first_sightings_def)

lemma distinct_first_sightings [simp]: "distinct (first_sightings ks)"
  by (induction ks rule: rev_induct) (auto simp: first_sightings_snoc first_sightings_def)

lemma map_set_new: "k \<notin> set (map fst m) \<Longrightarrow> map_set k v m = m @ [(k, v)]"
  by (induction m) auto

lemma map_set_old:
  "k \<in> set ks \<Longrightarrow> distinct ks \<Longrightarrow>
   map_set k v (map (\<lambda>x. (x, g x)) ks) = map (\<lambda>x. (x, if x = k then v else g x)) ks"
proof (induction ks)
  case Nil
  then show ?case by simp
next
  case (Cons a ks)
  show ?case
  proof (cases "a = k")
    case True
    then have "k \<notin> set ks" using Cons.prems by simp
    then have "map (\<lambda>x. (x, if x = k then v else g x)) ks = map (\<lambda>x. (x, g x)) ks"
      by (intro map_cong) auto
    then show ?thesis using True by simp
  next
    case False
    then show ?thesis using Cons by simp
  qed
qed

lemma last_write_snoc:
  "last_write (raw @ [j]) k = (if href j = k then j else last_write raw k)"
  by (simp add: last_write_def)

lemma merge_jobs_snoc: "merge_jobs (raw @ [j]) m = map_set (href j) j (merge_jobs raw m)"
  by (simp add: merge_jobs_def)

lemma merge_jobs_closed:
  "merge_jobs raw [] = map (\<lambda>k. (k, last_write raw k)) (first_sightings (map href raw))"
proof (induction raw rule: rev_induct)
  case Nil
  then show ?case by (simp add: first_sightings_def)
next
  case (snoc j raw)
  let ?ks = "first_sightings (map href raw)"
  have step: "merge_jobs (raw @ [j]) [] = map_set (href j) j (map (\<lambda>k. (k, last_write raw k)) ?ks)"
    using snoc by (simp add: merge_jobs_snoc)
  show ?case
  proof (cases "href j \<in> set ?ks")
    case True
    then have "map_set (href j) j (map (\<lambda>k. (k, last_write raw k)) ?ks) =
        map (\<lambda>k. (k, if k = href j then j else last_write raw k)) ?ks"
      by (simp add: map_set_old)
    also have "\<dots> = map (\<lambda>k. (k, last_write (raw @ [j]) k)) ?ks"
      by (intro map_cong) (auto simp: last_write_snoc)
    finally show ?thesis
      using True step by (simp add: first_sightings_snoc)
  next
    case False
    then have "href j \<notin> set (map fst (map (\<lambda>k. (k, last_write raw k)) ?ks))"
      by (simp add: comp_def)
    then have "map_set (href j) j (map (\<lambda>k. (k, last_write raw k)) ?ks) =
        map (\<lambda>k. (k, last_write raw k)) ?ks @ [(href j, j)]"
      by (rule map_set_new)
    also have "\<dots> = map (\<lambda>k. (k, last_write (raw @ [j]) k)) (?ks @ [href j])"
      using False by (auto simp: last_write_snoc)
    finally show ?thesis
      using False step by (simp add: first_sightings_snoc)
  qed
qed

lemma merge_jobs_append: "merge_jobs (xs @ ys) m = merge_jobs ys (merge_jobs xs m)"
  by (simp add: merge_jobs_def)

lemma merged_pages_concat:
  "merged_pages f ks m = merge_jobs (concat (map (\<lambda>k. batch_of (f k)) ks)) m"
  unfolding merged_pages_def
  by (induction ks arbitrary: m) (simp_all add: merge_jobs_append)

lemma href_last_write: "k \<in> set (map href raw) \<Longrightarrow> href (last_write raw k) = k"
proof -
  assume "k \<in> set (map href raw)"
  then have ne: "filter (\<lambda>j. href j = k) raw \<noteq> []"
    by (auto simp: filter_empty_conv)
  then have "last (filter (\<lambda>j. href j = k) raw) \<in> set (filter (\<lambda>j. href j = k) raw)"
    by (rule last_in_set)
  then show ?thesis
    by (simp add: last_write_def)
qed

lemma last_write_in: "k \<in> set (map href raw) \<Longrightarrow> last_write raw k \<in> set raw"
proof -
  assume "k \<in> set (map href raw)"
  then have ne: "filter (\<lambda>j. href j = k) raw \<noteq> []"
    by (auto simp: filter_empty_conv)
  then have "last (filter (\<lambda>j. href j = k) raw) \<in> set (filter (\<lambda>j. href j = k) raw)"
    by (rule last_in_set)
  then show ?thesis
    by (simp add: last_write_def)
qed

lemma values_closed:
  "map_values (merge_jobs raw []) = map (last_write raw) (first_sightings (map href raw))"
  by (simp add: merge_jobs_closed map_values_def comp_def)

lemma hrefs_closed:
  "map href (map_values (merge_jobs raw [])) = first_sightings (map href raw)"
proof -
  have "map href (map (last_write raw) (first_sightings (map href raw))) =
      map (\<lambda>k. k) (first_sightings (map href raw))"
    unfolding map_map by (intro map_cong) (auto simp: href_last_write)
  then show ?thesis
    by (simp add: values_closed)
qed

lemma href_finalize [simp]: "href (finalize j) = href j"
  by (simp add: finalize_def Let_def)

lemma href_finalize_index [simp]: "href (finalize_index j) = href j"
  by (simp add: finalize_index_def Let_def)

subsection \<open>The next-button loop\<close>

lemma next_loop_cap: "\<not> int p \<le> cfg_MAX_PAGES cfg \<Longrightarrow> next_loop cfg st ctl p m = ([], Inr m)"
  by (subst next_loop.simps) simp

lemma next_loop_stop:
  "int p \<le> cfg_MAX_PAGES cfg \<Longrightarrow> \<not> goes_on (ctl p) (scrapePage_bolt (st (p - 1))) m \<Longrightarrow>
   next_loop cfg st ctl p m =
     ([p], if next_count (ctl p) > 0 \<and> (case next_isEnabled (ctl p) of Inl e \<Rightarrow> False | Inr b \<Rightarrow> b)
           then (case scrapePage_bolt (st (p - 1)) of
                   Inl e \<Rightarrow> Inl e
                 | Inr b \<Rightarrow> Inr (merge_jobs b m))
           else Inr m)"
  by (subst next_loop.simps) (auto simp: goes_on_def Let_def split: sum.splits)

lemma next_loop_step:
  "int p \<le> cfg_MAX_PAGES cfg \<Longrightarrow> goes_on (ctl p) (scrapePage_bolt (st (p - 1))) m \<Longrightarrow>
   next_loop cfg st ctl p m =
     (case next_loop cfg st ctl (p + 1) (merge_jobs (batch_of (scrapePage_bolt (st (p - 1)))) m) of
        (its, r) \<Rightarrow> (p # its, r))"
  by (subst next_loop.simps) (auto simp: goes_on_def Let_def batch_of_def split: sum.splits)

lemma next_loop_cases:
  obtains (cap) "\<not> int p \<le> cfg_MAX_PAGES cfg" "next_loop cfg st ctl p m = ([], Inr m)"
  | (stop) r where "int p \<le> cfg_MAX_PAGES cfg"
      "\<not> goes_on (ctl p) (scrapePage_bolt (st (p - 1))) m"
      "next_loop cfg st ctl p m = ([p], r)"
      "r = (if next_count (ctl p) > 0 \<and> (case next_isEnabled (ctl p) of Inl e \<Rightarrow> False | Inr b \<Rightarrow> b)
           then (case scrapePage_bolt (st (p - 1)) of
                   Inl e \<Rightarrow> Inl e
                 | Inr b \<Rightarrow> Inr (merge_jobs b m))
           else Inr m)"
  | (step) its r where "int p \<le> cfg_MAX_PAGES cfg"
      "goes_on (ctl p) (scrapePage_bolt (st (p - 1))) m"
      "next_loop cfg st ctl (p + 1) (merge_jobs (batch_of (scrapePage_bolt (st (p - 1)))) m) = (its, r)"
      "next_loop cfg st ctl p m = (p # its, r)"
proof (cases "int p \<le> cfg_MAX_PAGES cfg")
  case False
  then show ?thesis using cap next_loop_cap by blast
next
  case True
  show ?thesis
  proof (cases "goes_on (ctl p) (scrapePage_bolt (st (p - 1))) m")
    case False
    then show ?thesis using stop True next_loop_stop by blast
  next
    case g: True
    obtain its r where ir:
      "next_loop cfg st ctl (p + 1) (merge_jobs (batch_of (scrapePage_bolt (st (p - 1)))) m) = (its, r)"
      by (cases "next_loop cfg st ctl (p + 1) (merge_jobs (batch_of (scrapePage_bolt (st (p - 1)))) m)")
        auto
    then have "next_loop cfg st ctl p m = (p # its, r)"
      using next_loop_step [where p = p and cfg = cfg and ctl = ctl and st = st and m = m] True g
      by simp
    then show ?thesis using step True g ir by blast
  qed
qed

lemma next_loop_shape:
  "next_loop cfg st ctl p m = (its, r) \<Longrightarrow>
   its = [p..<p + length its] \<and> length its \<le> nat (cfg_MAX_PAGES cfg + 1 - int p)"
proof (induction "nat (cfg_MAX_PAGES cfg + 1 - int p)" arbitrary: p m its r)
  case 0
  then have "\<not> int p \<le> cfg_MAX_PAGES cfg" by simp
  then show ?case using 0 by (simp add: next_loop_cap)
next
  case (Suc d)
  show ?case
  proof (cases rule: next_loop_cases [of p cfg st ctl m])
    case cap
    then show ?thesis using Suc.prems by simp
  next
    case (stop r')
    then show ?thesis using Suc.prems by auto
  next
    case (step its' r')
    have "its' = [p + 1..<(p + 1) + length its'] \<and> length its' \<le> nat (cfg_MAX_PAGES cfg + 1 - int (p + 1))"
      using Suc.hyps(1) [of "p + 1", OF _ step(3)] Suc.hyps(2) by simp
    moreover have "its = p # its'"
      using step(4) Suc.prems by simp
    ultimately show ?thesis
      using step(1) by (auto simp add: upt_conv_Cons simp del: upt_Suc)
  qed
qed

lemma next_loop_before_last:
  "next_loop cfg st ctl p m = (its, r) \<Longrightarrow> p \<le> k \<Longrightarrow> k + 1 < p + length its \<Longrightarrow>
   goes_on (ctl k) (scrapePage_bolt (st (k - 1)))
     (merged_pages (\<lambda>q. scrapePage_bolt (st (q - 1))) [p..<k] m)"
proof (induction "nat (cfg_MAX_PAGES cfg + 1 - int p)" arbitrary: p m its r)
  case 0
  then have "\<not> int p \<le> cfg_MAX_PAGES cfg" by simp
  then show ?case using 0 by (simp add: next_loop_cap)
next
  case (Suc d)
  show ?case
  proof (cases rule: next_loop_cases [of p cfg st ctl m])
    case cap
    then show ?thesis using Suc.prems by simp
  next
    case (stop r')
    then show ?thesis using Suc.prems by auto
  next
    case (step its' r')
    have its: "its = p # its'"
      using step(4) Suc.prems by simp
    show ?thesis
    proof (cases "k = p")
      case True
      then show ?thesis using step(2) by (simp add: merged_pages_def)
    next
      case False
      then have k: "p + 1 \<le> k" "k + 1 < (p + 1) + length its'"
        using Suc.prems its by auto
      have "goes_on (ctl k) (scrapePage_bolt (st (k - 1)))
          (merged_pages (\<lambda>q. scrapePage_bolt (st (q - 1))) [p + 1..<k]
             (merge_jobs (batch_of (scrapePage_bolt (st (p - 1)))) m))"
        using Suc.hyps(1) [of "p + 1", OF _ step(3) k] Suc.hyps(2) by simp
      moreover have "p < k" using k by simp
      ultimately show ?thesis
        by (simp add: merged_pages_upt)
    qed
  qed
qed

lemma next_loop_early:
  "next_loop cfg st ctl p m = (its, r) \<Longrightarrow> int (p + length its) \<le> cfg_MAX_PAGES cfg \<Longrightarrow>
   its \<noteq> [] \<and>
   \<not> goes_on (ctl (p + length its - 1)) (scrapePage_bolt (st (p + length its - 1 - 1)))
       (merged_pages (\<lambda>q. scrapePage_bolt (st (q - 1))) [p..<p + length its - 1] m)"
proof (induction "nat (cfg_MAX_PAGES cfg + 1 - int p)" arbitrary: p m its r)
  case 0
  then show ?case by simp
next
  case (Suc d)
  show ?case
  proof (cases rule: next_loop_cases [of p cfg st ctl m])
    case cap
    then show ?thesis using Suc.prems by simp
  next
    case (stop r')
    then show ?thesis using Suc.prems by (auto simp: merged_pages_def)
  next
    case (step its' r')
    have its: "its = p # its'"
      using step(4) Suc.prems by simp
    then have "int ((p + 1) + length its') \<le> cfg_MAX_PAGES cfg"
      using Suc.prems(2) by simp
    then have ih: "its' \<noteq> [] \<and>
        \<not> goes_on (ctl ((p + 1) + length its' - 1)) (scrapePage_bolt (st ((p + 1) + length its' - 1 - 1)))
          (merged_pages (\<lambda>q. scrapePage_bolt (st (q - 1))) [p + 1..<(p + 1) + length its' - 1]
             (merge_jobs (batch_of (scrapePage_bolt (st (p - 1)))) m))"
      using Suc.hyps(1) [of "p + 1", OF _ step(3)] Suc.hyps(2) by simp
    then have "p < p + length its' "
      by simp
    then show ?thesis
      using ih its merged_pages_upt [of p "p + length its'" "\<lambda>q. scrapePage_bolt (st (q - 1))" m]
      by simp
  qed
qed

lemma next_loop_all:
  assumes "\<And>k b x. scrapePage_bolt (st k) = Inr b \<Longrightarrow> x \<in> set b \<Longrightarrow> P x"
  shows "next_loop cfg st ctl p m = (its, Inr m') \<Longrightarrow> \<forall>x\<in>set (map_values m). P x \<Longrightarrow>
     \<forall>x\<in>set (map_values m'). P x"
proof (induction "nat (cfg_MAX_PAGES cfg + 1 - int p)" arbitrary: p m its)
  case 0
  then have "\<not> int p \<le> cfg_MAX_PAGES cfg" by simp
  then show ?case using 0 by (simp add: next_loop_cap)
next
  case (Suc d)
  have "\<forall>x\<in>set (batch_of (scrapePage_bolt (st (p - 1)))). P x"
  proof (cases "scrapePage_bolt (st (p - 1))")
    case (Inl e)
    then show ?thesis by (simp add: batch_of_def)
  next
    case (Inr b)
    then show ?thesis using assms [OF Inr] by (simp add: batch_of_def)
  qed
  then have merged: "\<forall>x\<in>set (map_values (merge_jobs (batch_of (scrapePage_bolt (st (p - 1)))) m)). P x"
    using Suc.prems(2) by (intro merge_jobs_all)
  show ?case
  proof (cases rule: next_loop_cases [of p cfg st ctl m])
    case cap
    then show ?thesis using Suc.prems by simp
  next
    case (stop r')
    then show ?thesis
      using Suc.prems merged by (auto simp: batch_of_def split: if_splits sum.splits)
  next
    case (step its' r')
    then have "next_loop cfg st ctl (p + 1) (merge_jobs (batch_of (scrapePage_bolt (st (p - 1)))) m)
        = (its', Inr m')"
      using Suc.prems(1) by simp
    then show ?thesis
      using Suc.hyps(1) [of "p + 1", OF _ _ merged] Suc.hyps(2) by simp
  qed
qed


section \<open>Snapshots: proofs\<close>

subsection \<open>Records keep a link and a title through the run\<close>

lemma norm_nonempty: "t \<noteq> [] \<Longrightarrow> trim t = t \<Longrightarrow> norm (Some t) \<noteq> []"
proof -
  assume t: "t \<noteq> []" "trim t = t"
  then have "\<not> (\<forall>c\<in>set t. is_ws c)"
    using trim_eq_Nil [of t] by simp
  then have "filter (\<lambda>c. \<not> is_ws c) t \<noteq> []"
    by (simp add: filter_empty_conv)
  then have "filter (\<lambda>c. \<not> is_ws c) (norm (Some t)) \<noteq> []"
    by (simp add: norm_def or_empty_def filter_nonws_trim filter_nonws_replace_ws)
  then show ?thesis by auto
qed

lemma finalize_ok:
  "has_link_and_title j \<and> trim (title j) = title j \<Longrightarrow> has_link_and_title (finalize j)"
  by (simp add: has_link_and_title_def finalize_def Let_def norm_nonempty)

lemma finalize_index_ok:
  "has_link_and_title j \<and> trim (title j) = title j \<Longrightarrow> has_link_and_title (finalize_index j)"
  using norm_nonempty [of "title j"]
  by (simp add: has_link_and_title_def finalize_index_def Let_def normaliseText_def norm_def)

lemma merged_pages_all:
  assumes "\<And>k b x. f k = Inr b \<Longrightarrow> x \<in> set b \<Longrightarrow> P x"
  shows "\<forall>x\<in>set (map_values m). P x \<Longrightarrow> \<forall>x\<in>set (map_values (merged_pages f ks m)). P x"
proof (induction ks arbitrary: m)
  case Nil
  then show ?case by (simp add: merged_pages_def)
next
  case (Cons k ks)
  have "\<forall>x\<in>set (batch_of (f k)). P x"
  proof (cases "f k")
    case (Inl e)
    then show ?thesis by (simp add: batch_of_def)
  next
    case (Inr b)
    then show ?thesis using assms [OF Inr] by (simp add: batch_of_def)
  qed
  then have "\<forall>x\<in>set (map_values (merge_jobs (batch_of (f k)) m)). P x"
    using Cons.prems by (intro merge_jobs_all)
  then have "\<forall>x\<in>set (map_values (merged_pages f ks (merge_jobs (batch_of (f k)) m))). P x"
    by (rule Cons.IH)
  then show ?case by (simp add: merged_pages_def)
qed

lemma pages_loop_all:
  assumes "\<And>k b x. f k = Inr b \<Longrightarrow> x \<in> set b \<Longrightarrow> P x"
    and "pages_loop f ps cap i m = (n, Inr m')"
    and "\<forall>x\<in>set (map_values m). P x"
  shows "\<forall>x\<in>set (map_values m'). P x"
proof -
  have "m' = merged_pages f [i..<i + n] m"
    using pages_loop_result [OF assms(2)] by simp
  then show ?thesis
    using merged_pages_all [of f P m "[i..<i + n]"] assms(1,3) by blast
qed

lemma scrapeJobs_Inr:
  assumes "scrapeJobs st now = (loads, Inr p)"
  shows "\<exists>n m. pages_loop (\<lambda>k. scrapePage (st k)) (int PAGE_SIZE) MAX_PAGES 0 [] = (n, Inr m)
     \<and> length loads = n \<and> p = make_payload BASE_URL now (map_values m)"
proof -
  obtain n q where nq: "pages_loop (\<lambda>k. scrapePage (st k)) (int PAGE_SIZE) MAX_PAGES 0 [] = (n, q)"
    by (cases "pages_loop (\<lambda>k. scrapePage (st k)) (int PAGE_SIZE) MAX_PAGES 0 []") auto
  then show ?thesis
    using assms by (auto simp: scrapeJobs_def scrapeJobs_loop_pages split: sum.splits)
qed

lemma scrapeJobs_index_Inr:
  assumes "scrapeJobs_index st now = Some (loads, Inr p)"
  shows "\<exists>cap n m. pages_loop (\<lambda>k. scrapePage_index (st k)) (int PAGE_SIZE) cap 0 [] = (n, Inr m)
     \<and> length loads = n \<and> p = make_payload_index now (map_values m)"
proof -
  obtain cap n q where c:
    "pages_loop (\<lambda>k. scrapePage_index (st k)) (int PAGE_SIZE) cap 0 [] = (n, q)"
    "loads = map (\<lambda>k. k * PAGE_SIZE) [0..<n]"
    "Inr p = (case q of Inl e \<Rightarrow> Inl e | Inr m \<Rightarrow> Inr (make_payload_index now (map_values m)))"
    using scrapeJobs_index_Some [OF assms] by blast
  then show ?thesis
    by (cases q) auto
qed

lemma make_payload_all:
  "\<forall>x\<in>set xs. has_link_and_title x \<and> trim (title x) = title x \<Longrightarrow>
   \<forall>j\<in>set (jobs (make_payload src now xs)). has_link_and_title j"
  by (auto simp: make_payload_def finalize_ok)

lemma make_payload_index_all:
  "\<forall>x\<in>set xs. has_link_and_title x \<and> trim (title x) = title x \<Longrightarrow>
   \<forall>j\<in>set (jobs (make_payload_index now xs)). has_link_and_title j"
  by (auto simp: make_payload_index_def finalize_index_ok)

lemma scrapeJobs_all:
  assumes "scrapeJobs st now = (loads, Inr p)"
  shows "\<forall>j\<in>set (jobs p). has_link_and_title j"
proof -
  obtain n m where nm:
    "pages_loop (\<lambda>k. scrapePage (st k)) (int PAGE_SIZE) MAX_PAGES 0 [] = (n, Inr m)"
    "p = make_payload BASE_URL now (map_values m)"
    using scrapeJobs_Inr [OF assms] by blast
  have "\<forall>x\<in>set (map_values m). has_link_and_title x \<and> trim (title x) = title x"
    by (rule pages_loop_all [OF _ nm(1)]) (auto dest: scrapePage_ok simp: map_values_def)
  then show ?thesis
    unfolding nm(2) by (rule make_payload_all)
qed

lemma scrapeJobs_index_all:
  assumes "scrapeJobs_index st now = Some (loads, Inr p)"
  shows "\<forall>j\<in>set (jobs p). has_link_and_title j"
proof -
  obtain cap n m where nm:
    "pages_loop (\<lambda>k. scrapePage_index (st k)) (int PAGE_SIZE) cap 0 [] = (n, Inr m)"
    "p = make_payload_index now (map_values m)"
    using scrapeJobs_index_Inr [OF assms] by blast
  have "\<forall>x\<in>set (map_values m). has_link_and_title x \<and> trim (title x) = title x"
    by (rule pages_loop_all [OF _ nm(1)]) (auto dest: scrapePage_index_ok simp: map_values_def)
  then show ?thesis
    unfolding nm(2) by (rule make_payload_index_all)
qed

lemma scrapeAll_all:
  assumes "scrapeAll cfg st ctl now = (loads, Inr p)"
  shows "\<forall>j\<in>set (jobs p). has_link_and_title j"
proof -
  let ?Q = "\<lambda>x::job. has_link_and_title x \<and> trim (title x) = title x"
  have pages: "\<And>k b x. scrapePage_bolt (st k) = Inr b \<Longrightarrow> x \<in> set b \<Longrightarrow> ?Q x"
    using scrapePage_bolt_ok by blast
  have "\<exists>m. p = make_payload (cfg_BASE_URL cfg) now (map_values m) \<and> (\<forall>x\<in>set (map_values m). ?Q x)"
  proof (cases "cfg_PAGINATION_MODE cfg = js ''next''")
    case True
    then obtain first its m where f: "scrapePage_bolt (st 0) = Inr first"
        "next_loop cfg st ctl 2 (merge_jobs first []) = (its, Inr m)"
        "p = make_payload (cfg_BASE_URL cfg) now (map_values m)"
      using assms by (auto simp: scrapeAll_def split: sum.splits prod.splits)
    have "\<forall>x\<in>set (map_values (merge_jobs first [])). ?Q x"
      using pages [OF f(1)] by (intro merge_jobs_all) (simp_all add: map_values_def)
    then have "\<forall>x\<in>set (map_values m). ?Q x"
      using next_loop_all [of st ?Q cfg ctl 2 "merge_jobs first []" its m] pages f(2) by blast
    then show ?thesis using f(3) by blast
  next
    case False
    obtain n q where nq: "pages_loop (\<lambda>k. scrapePage_bolt (st k)) (cfg_PAGE_SIZE cfg)
        (nat (cfg_MAX_PAGES cfg)) 0 [] = (n, q)"
      by (cases "pages_loop (\<lambda>k. scrapePage_bolt (st k)) (cfg_PAGE_SIZE cfg)
        (nat (cfg_MAX_PAGES cfg)) 0 []") auto
    then obtain m where m: "q = Inr m" "p = make_payload (cfg_BASE_URL cfg) now (map_values m)"
      using assms False by (auto simp: scrapeAll_def offset_loop_bolt_pages split: sum.splits)
    have "\<forall>x\<in>set (map_values m). ?Q x"
      using pages_loop_all [of "\<lambda>k. scrapePage_bolt (st k)" ?Q "cfg_PAGE_SIZE cfg"
          "nat (cfg_MAX_PAGES cfg)" 0 "[]" n m] pages nq m(1)
      by (simp add: map_values_def)
    then show ?thesis using m(2) by blast
  qed
  then show ?thesis
    using make_payload_all by blast
qed

lemma payload_closed:
  "jobs (make_payload src now (map_values (merge_jobs raw []))) =
     map (\<lambda>k. finalize (last_write raw k)) (first_sightings (map href raw))
   \<and> map href (jobs (make_payload src now (map_values (merge_jobs raw [])))) =
       first_sightings (map href raw)
   \<and> distinct (map href (jobs (make_payload src now (map_values (merge_jobs raw [])))))
   \<and> count (make_payload src now (map_values (merge_jobs raw []))) =
       length (jobs (make_payload src now (map_values (merge_jobs raw []))))"
proof -
  let ?p = "make_payload src now (map_values (merge_jobs raw []))"
  have j: "jobs ?p = map (\<lambda>k. finalize (last_write raw k)) (first_sightings (map href raw))"
    by (simp add: make_payload_def values_closed comp_def)
  have "map href (jobs ?p) = map href (map_values (merge_jobs raw []))"
    by (simp add: make_payload_def comp_def)
  then have h: "map href (jobs ?p) = first_sightings (map href raw)"
    by (simp only: hrefs_closed)
  have d: "distinct (map href (jobs ?p))"
    unfolding h by simp
  have c: "count ?p = length (jobs ?p)"
    by (simp add: make_payload_def)
  show ?thesis
    using j h d c by blast
qed

lemma payload_index_closed:
  "jobs (make_payload_index now (map_values (merge_jobs raw []))) =
     map (\<lambda>k. finalize_index (last_write raw k)) (first_sightings (map href raw))
   \<and> map href (jobs (make_payload_index now (map_values (merge_jobs raw [])))) =
       first_sightings (map href raw)
   \<and> distinct (map href (jobs (make_payload_index now (map_values (merge_jobs raw [])))))
   \<and> count (make_payload_index now (map_values (merge_jobs raw []))) =
       length (jobs (make_payload_index now (map_values (merge_jobs raw []))))"
proof -
  let ?p = "make_payload_index now (map_values (merge_jobs raw []))"
  have j: "jobs ?p = map (\<lambda>k. finalize_index (last_write raw k)) (first_sightings (map href raw))"
    by (simp add: make_payload_index_def values_closed comp_def)
  have "map href (jobs ?p) = map href (map_values (merge_jobs raw []))"
    by (simp add: make_payload_index_def comp_def)
  then have h: "map href (jobs ?p) = first_sightings (map href raw)"
    by (simp only: hrefs_closed)
  have d: "distinct (map href (jobs ?p))"
    unfolding h by simp
  have c: "count ?p = length (jobs ?p)"
    by (simp add: make_payload_index_def)
  show ?thesis
    using j h d c by blast
qed


lemma demo_snapshot: "\<exists>p. scrapeJobs demo_site 0 = ([0, 10], Inr p) \<and> count p = 14"
  by (simp add: scrapeJobs_def scrapeJobs_loop.simps [of demo_site] Let_def demo_site_def
      PAGE_SIZE_def MAX_PAGES_def page_defs make_payload_def merge_jobs_def
      split: prod.splits sum.splits)


lemma demo_first_page:
  "scrapePage_bolt (demo_site 0) = Inr (batch_of (scrapePage_bolt (demo_site 0)))"
  by (simp add: page_defs batch_of_def demo_site_def)

lemma demo_next_its:
  "fst (next_loop demo_config demo_site demo_controls 2
      (merge_jobs (batch_of (scrapePage_bolt (demo_site 0))) [])) = [2, 3]"
proof -
  have c: "cfg_MAX_PAGES demo_config = 60"
    by (simp add: demo_config_def)
  show ?thesis
    by (simp add: next_loop.simps [of demo_config demo_site] c Let_def demo_site_def
        demo_controls_def page_defs batch_of_def merge_jobs_def map_size_def
        split: prod.splits sum.splits)
qed


lemma demo_blank: "evaluate_anchors [demo_anchor 0, demo_anchor 1\<lparr>a_textContent := Some [32, 9]\<rparr>,
      demo_anchor 2\<lparr>a_href := []\<rparr>] = evaluate_anchors [demo_anchor 0]"
  by (simp add: page_defs)



section \<open>Reconciliation and programs: proofs\<close>

subsection \<open>The store\<close>

lemma store_upsert_Nil [simp]: "store_upsert [] s = s"
  by (simp add: store_upsert_def)

lemma store_upsert_Cons: "store_upsert (r # rs) s = store_upsert rs (s(url r \<mapsto> r))"
  by (simp add: store_upsert_def)

lemma store_upsert_append: "store_upsert (xs @ ys) s = store_upsert ys (store_upsert xs s)"
  by (simp add: store_upsert_def)

lemma store_upsert_other: "u \<notin> url ` set rs \<Longrightarrow> store_upsert rs s u = s u"
  by (induction rs arbitrary: s) (auto simp: store_upsert_Cons)

lemma store_upsert_hit:
  "u \<in> url ` set rs \<Longrightarrow> \<exists>r\<in>set rs. url r = u \<and> store_upsert rs s u = Some r"
proof (induction rs arbitrary: s)
  case Nil
  then show ?case by simp
next
  case (Cons a rs)
  show ?case
  proof (cases "u \<in> url ` set rs")
    case True
    then obtain r where "r \<in> set rs" "url r = u" "store_upsert rs (s(url a \<mapsto> a)) u = Some r"
      using Cons.IH [of "s(url a \<mapsto> a)"] by blast
    then show ?thesis
      unfolding store_upsert_Cons by auto
  next
    case False
    then have "url a = u" using Cons.prems by auto
    then show ?thesis
      using False by (simp add: store_upsert_Cons store_upsert_other)
  qed
qed

lemma take_drop_step: "take n (drop i xs) @ drop (i + n) xs = drop i xs"
  by (metis add.commute append_take_drop_id drop_drop)

lemma upsert_chunks_done: "\<not> i < length rows \<Longrightarrow> upsert_chunks d rows i s = (s, [], None)"
  by (subst upsert_chunks.simps) simp

lemma upsert_chunks_fail:
  "i < length rows \<Longrightarrow> upsert_error d (i div CHUNK) = Some e \<Longrightarrow>
   upsert_chunks d rows i s = (s, [Upsert (take CHUNK (drop i rows))], Some e)"
  by (subst upsert_chunks.simps) (simp add: Let_def)

lemma upsert_chunks_step:
  "i < length rows \<Longrightarrow> upsert_error d (i div CHUNK) = None \<Longrightarrow>
   upsert_chunks d rows i s =
     (case upsert_chunks d rows (i + CHUNK) (store_upsert (take CHUNK (drop i rows)) s) of
        (s', ops, r) \<Rightarrow> (s', Upsert (take CHUNK (drop i rows)) # ops, r))"
  by (subst upsert_chunks.simps) (simp add: Let_def)

lemma upsert_chunks_ok:
  "upsert_chunks d rows i s = (s', ops, None) \<Longrightarrow>
   s' = store_upsert (drop i rows) s \<and> (\<exists>ups. ops = map Upsert ups \<and> concat ups = drop i rows)"
proof (induction "length rows - i" arbitrary: i s s' ops rule: less_induct)
  case less
  show ?case
  proof (cases "i < length rows")
    case False
    then show ?thesis
      using less.prems by (simp add: upsert_chunks_done)
  next
    case True
    let ?slice = "take CHUNK (drop i rows)"
    show ?thesis
    proof (cases "upsert_error d (i div CHUNK)")
      case (Some e)
      then show ?thesis
        using less.prems True by (simp add: upsert_chunks_fail)
    next
      case None
      obtain s1 ops1 r1 where rec:
        "upsert_chunks d rows (i + CHUNK) (store_upsert ?slice s) = (s1, ops1, r1)"
        by (cases "upsert_chunks d rows (i + CHUNK) (store_upsert ?slice s)") auto
      then have eq: "s' = s1" "ops = Upsert ?slice # ops1" "r1 = None"
        using less.prems True None by (simp_all add: upsert_chunks_step)
      have "length rows - (i + CHUNK) < length rows - i"
        using True by (simp add: CHUNK_def)
      then have ih: "s1 = store_upsert (drop (i + CHUNK) rows) (store_upsert ?slice s)
          \<and> (\<exists>ups. ops1 = map Upsert ups \<and> concat ups = drop (i + CHUNK) rows)"
        using less.hyps [of "i + CHUNK" "store_upsert ?slice s" s1 ops1] rec eq(3) by simp
      then obtain ups where ups: "ops1 = map Upsert ups" "concat ups = drop (i + CHUNK) rows"
        by blast
      have "s' = store_upsert (drop i rows) s"
        using ih eq(1) store_upsert_append [of ?slice "drop (i + CHUNK) rows" s]
        by (simp add: take_drop_step)
      moreover have "ops = map Upsert (?slice # ups) \<and> concat (?slice # ups) = drop i rows"
        using ups eq(2) by (simp add: take_drop_step)
      ultimately show ?thesis by blast
    qed
  qed
qed

lemma upsert_chunks_err:
  "upsert_chunks d rows i s = (s', ops, Some e) \<Longrightarrow>
   (\<exists>ups. ops = map Upsert ups) \<and> (\<exists>k. upsert_error d k = Some e)"
proof (induction "length rows - i" arbitrary: i s s' ops rule: less_induct)
  case less
  show ?case
  proof (cases "i < length rows")
    case False
    then show ?thesis
      using less.prems by (simp add: upsert_chunks_done)
  next
    case True
    let ?slice = "take CHUNK (drop i rows)"
    show ?thesis
    proof (cases "upsert_error d (i div CHUNK)")
      case (Some e')
      then have "ops = map Upsert [?slice]" "e' = e"
        using less.prems True by (simp_all add: upsert_chunks_fail)
      then show ?thesis using Some by blast
    next
      case None
      obtain s1 ops1 r1 where rec:
        "upsert_chunks d rows (i + CHUNK) (store_upsert ?slice s) = (s1, ops1, r1)"
        by (cases "upsert_chunks d rows (i + CHUNK) (store_upsert ?slice s)") auto
      then have eq: "ops = Upsert ?slice # ops1" "r1 = Some e"
        using less.prems True None by (simp_all add: upsert_chunks_step)
      have "length rows - (i + CHUNK) < length rows - i"
        using True by (simp add: CHUNK_def)
      then have "(\<exists>ups. ops1 = map Upsert ups) \<and> (\<exists>k. upsert_error d k = Some e)"
        using less.hyps [of "i + CHUNK" "store_upsert ?slice s" s1 ops1] rec eq(2) by simp
      then obtain ups where "ops1 = map Upsert ups" and k: "\<exists>k. upsert_error d k = Some e"
        by blast
      then have "ops = map Upsert (?slice # ups)"
        using eq(1) by simp
      then show ?thesis using k by blast
    qed
  qed
qed

lemma upsert_chunks_fails:
  "j \<le> k \<Longrightarrow> k * CHUNK < length rows \<Longrightarrow> upsert_error d k \<noteq> None \<Longrightarrow>
   snd (snd (upsert_chunks d rows (j * CHUNK) s)) \<noteq> None"
proof (induction "k - j" arbitrary: j s)
  case 0
  then have "j = k" by simp
  have dv: "(j * CHUNK) div CHUNK = j"
    by (simp add: CHUNK_def)
  obtain e where "upsert_error d ((j * CHUNK) div CHUNK) = Some e"
    using 0 \<open>j = k\<close> dv by auto
  then show ?case
    using 0 \<open>j = k\<close> by (simp add: upsert_chunks_fail)
next
  case (Suc n)
  have dv: "(j * CHUNK) div CHUNK = j"
    by (simp add: CHUNK_def)
  have "j * CHUNK \<le> k * CHUNK"
    by (rule mult_le_mono1) (rule Suc.prems(1))
  then have lt: "j * CHUNK < length rows"
    using Suc.prems(2) by (rule le_less_trans)
  show ?case
  proof (cases "upsert_error d ((j * CHUNK) div CHUNK)")
    case (Some e)
    then show ?thesis using lt by (simp add: upsert_chunks_fail)
  next
    case None
    let ?s = "store_upsert (take CHUNK (drop (j * CHUNK) rows)) s"
    obtain s1 ops1 r1 where rec: "upsert_chunks d rows (j * CHUNK + CHUNK) ?s = (s1, ops1, r1)"
      by (cases "upsert_chunks d rows (j * CHUNK + CHUNK) ?s") auto
    have "snd (snd (upsert_chunks d rows ((j + 1) * CHUNK) ?s)) \<noteq> None"
      using Suc.hyps(1) [of "j + 1"] Suc.hyps(2) Suc.prems by simp
    then have "r1 \<noteq> None"
      using rec by (simp add: algebra_simps)
    then show ?thesis
      using upsert_chunks_step [OF lt None, of s] rec by simp
  qed
qed

lemma upsert_chunks_succeeds:
  "\<forall>k. upsert_error d k = None \<Longrightarrow> snd (snd (upsert_chunks d rows i s)) = None"
proof (induction "length rows - i" arbitrary: i s rule: less_induct)
  case less
  show ?case
  proof (cases "i < length rows")
    case False
    then show ?thesis by (simp add: upsert_chunks_done)
  next
    case True
    let ?s = "store_upsert (take CHUNK (drop i rows)) s"
    obtain s1 ops1 r1 where rec: "upsert_chunks d rows (i + CHUNK) ?s = (s1, ops1, r1)"
      by (cases "upsert_chunks d rows (i + CHUNK) ?s") auto
    have "length rows - (i + CHUNK) < length rows - i"
      using True by (simp add: CHUNK_def)
    then have "snd (snd (upsert_chunks d rows (i + CHUNK) ?s)) = None"
      using less by simp
    then have "r1 = None"
      using rec by simp
    moreover have "upsert_error d (i div CHUNK) = None"
      using less.prems by simp
    ultimately show ?thesis
      using upsert_chunks_step [OF True, of d s] rec by simp
  qed
qed

lemma upsert_each_index_fst:
  "fst (upsert_each_index d clock k (j # jl) s) =
     fst (upsert_each_index d clock (k + 1) jl
       (case upsert_error d (k - 1) of None \<Rightarrow> store_upsert [to_row (clock k) j] s | Some e \<Rightarrow> s))"
  by (simp add: Let_def split: prod.splits)

lemma upsert_each_index_snd:
  "snd (upsert_each_index d clock k (j # jl) s) =
     Upsert [to_row (clock k) j] #
     snd (upsert_each_index d clock (k + 1) jl
       (case upsert_error d (k - 1) of None \<Rightarrow> store_upsert [to_row (clock k) j] s | Some e \<Rightarrow> s))"
  by (simp add: Let_def split: prod.splits)

lemma upsert_each_index_other:
  "u \<notin> href ` set jl \<Longrightarrow> fst (upsert_each_index d clock k jl s) u = s u"
proof (induction jl arbitrary: k s)
  case Nil
  then show ?case by simp
next
  case (Cons j jl)
  let ?s = "case upsert_error d (k - 1) of None \<Rightarrow> store_upsert [to_row (clock k) j] s | Some e \<Rightarrow> s"
  have "fst (upsert_each_index d clock (k + 1) jl ?s) u = ?s u"
    using Cons by simp
  moreover have "?s u = s u"
    using Cons.prems by (auto simp: to_row_def store_upsert_def split: option.splits)
  ultimately show ?case
    by (simp only: upsert_each_index_fst)
qed

lemma upsert_each_index_ops:
  "\<exists>ups. snd (upsert_each_index d clock k jl s) = map Upsert ups \<and> length ups = length jl"
proof (induction jl arbitrary: k s)
  case Nil
  then show ?case by simp
next
  case (Cons j jl)
  let ?s = "case upsert_error d (k - 1) of None \<Rightarrow> store_upsert [to_row (clock k) j] s | Some e \<Rightarrow> s"
  obtain ups where "snd (upsert_each_index d clock (k + 1) jl ?s) = map Upsert ups"
      "length ups = length jl"
    using Cons.IH by blast
  then have "snd (upsert_each_index d clock k (j # jl) s) = map Upsert ([to_row (clock k) j] # ups)
      \<and> length ([to_row (clock k) j] # ups) = length (j # jl)"
    by (simp only: upsert_each_index_snd) simp
  then show ?case by blast
qed

lemma url_to_row [simp]: "url (to_row t j) = href j"
  by (simp add: to_row_def)

lemma updateDatabase_ok:
  assumes "updateDatabase d p s = (s', ops, None)"
  shows "s' = store_set_inactive (\<lambda>r. is_active r \<and> updated_at r < scraped_at p)
              (store_upsert (map (to_row (scraped_at p)) (jobs p)) s)
     \<and> (\<exists>ups. ops = map Upsert ups @ [DeactivateBefore (scraped_at p)]
          \<and> concat ups = map (to_row (scraped_at p)) (jobs p))"
proof -
  let ?rows = "map (to_row (scraped_at p)) (jobs p)"
  obtain s1 ops1 r1 where u: "upsert_chunks d ?rows 0 s = (s1, ops1, r1)"
    by (cases "upsert_chunks d ?rows 0 s") auto
  have r1: "r1 = None"
    using assms u by (auto simp: updateDatabase_def Let_def split: option.splits)
  then have rest: "update_error d = None"
      "s' = store_set_inactive (\<lambda>r. is_active r \<and> updated_at r < scraped_at p) s1"
      "ops = ops1 @ [DeactivateBefore (scraped_at p)]"
    using assms u by (auto simp: updateDatabase_def Let_def split: option.splits)
  have "s1 = store_upsert (drop 0 ?rows) s \<and> (\<exists>ups. ops1 = map Upsert ups \<and> concat ups = drop 0 ?rows)"
    using upsert_chunks_ok [of d ?rows 0 s s1 ops1] u r1 by simp
  then show ?thesis
    using rest by auto
qed

lemma updateDatabase_succeeds:
  "\<forall>k. upsert_error d k = None \<Longrightarrow> update_error d = None \<Longrightarrow>
   snd (snd (updateDatabase d p s)) = None"
proof -
  assume a: "\<forall>k. upsert_error d k = None" "update_error d = None"
  let ?rows = "map (to_row (scraped_at p)) (jobs p)"
  obtain s1 ops1 r1 where u: "upsert_chunks d ?rows 0 s = (s1, ops1, r1)"
    by (cases "upsert_chunks d ?rows 0 s") auto
  then have "r1 = None"
    using upsert_chunks_succeeds [OF a(1), of ?rows 0 s] by simp
  then show ?thesis
    using u a(2) by (simp add: updateDatabase_def Let_def)
qed

lemma updateDatabase_fails:
  assumes "k * CHUNK < length (jobs p)" "upsert_error d k \<noteq> None"
  shows "(\<exists>e k'. snd (snd (updateDatabase d p s)) = Some e \<and> upsert_error d k' = Some e)
     \<and> (\<exists>ups. fst (snd (updateDatabase d p s)) = map Upsert ups)"
proof -
  let ?rows = "map (to_row (scraped_at p)) (jobs p)"
  obtain s1 ops1 r1 where u: "upsert_chunks d ?rows 0 s = (s1, ops1, r1)"
    by (cases "upsert_chunks d ?rows 0 s") auto
  have "snd (snd (upsert_chunks d ?rows (0 * CHUNK) s)) \<noteq> None"
    using assms by (intro upsert_chunks_fails [of 0 k]) simp_all
  then obtain e where e: "r1 = Some e"
    using u by auto
  then have "(\<exists>ups. ops1 = map Upsert ups) \<and> (\<exists>k. upsert_error d k = Some e)"
    using upsert_chunks_err [of d ?rows 0 s s1 ops1 e] u by simp
  moreover have "updateDatabase d p s = (s1, ops1, Some e)"
    using u e by (simp add: updateDatabase_def Let_def)
  ultimately show ?thesis
    by auto
qed

lemma store_set_inactive_apply:
  "store_set_inactive sel s u = (case s u of None \<Rightarrow> None
     | Some r \<Rightarrow> Some (if sel r then r\<lparr>is_active := False\<rparr> else r))"
  by (simp add: store_set_inactive_def)

lemma updateDatabase_index_shape:
  "\<exists>s' ups. updateDatabase_index d clock p s = (s', DeactivateAll # map Upsert ups, None)
     \<and> length ups = length (jobs p)
     \<and> (\<forall>u. u \<notin> href ` set (jobs p) \<longrightarrow>
          s' u = (case update_error d of None \<Rightarrow> store_set_inactive is_active s u | Some e \<Rightarrow> s u))"
proof -
  let ?s1 = "case update_error d of None \<Rightarrow> store_set_inactive is_active s | Some e \<Rightarrow> s"
  obtain s2 ops2 where r: "upsert_each_index d clock 1 (jobs p) ?s1 = (s2, ops2)"
    by (cases "upsert_each_index d clock 1 (jobs p) ?s1") auto
  obtain ups where ups: "ops2 = map Upsert ups" "length ups = length (jobs p)"
    using upsert_each_index_ops [of d clock 1 "jobs p" ?s1] r by auto
  have "\<forall>u. u \<notin> href ` set (jobs p) \<longrightarrow> s2 u = ?s1 u"
    using upsert_each_index_other [of _ "jobs p" d clock 1 ?s1] r by simp
  moreover have "updateDatabase_index d clock p s = (s2, DeactivateAll # map Upsert ups, None)"
    using r ups by (simp add: updateDatabase_index_def Let_def)
  ultimately show ?thesis
    using ups(2) by (auto split: option.splits)
qed

subsection \<open>The first chunk that fails\<close>

lemma upsert_chunks_first_failure:
  assumes "k * CHUNK < length rows" "upsert_error d k = Some e" "\<forall>i<k. upsert_error d i = None"
  shows "m \<le> k \<Longrightarrow> upsert_chunks d rows (m * CHUNK) s =
     (store_upsert (take ((k - m) * CHUNK) (drop (m * CHUNK) rows)) s,
      map (\<lambda>i. Upsert (take CHUNK (drop (i * CHUNK) rows))) [m..<Suc k], Some e)"
proof (induction "k - m" arbitrary: m s)
  case 0
  then have m: "m = k"
    by simp
  have "(k * CHUNK) div CHUNK = k"
    by (simp add: CHUNK_def)
  then have "upsert_chunks d rows (k * CHUNK) s =
      (s, [Upsert (take CHUNK (drop (k * CHUNK) rows))], Some e)"
    using upsert_chunks_fail [of "k * CHUNK" rows d e s] assms(1,2) by simp
  then show ?case
    unfolding m by simp
next
  case (Suc n)
  then have lt: "m < k"
    by simp
  let ?slice = "take CHUNK (drop (m * CHUNK) rows)"
  have dv: "(m * CHUNK) div CHUNK = m"
    by (simp add: CHUNK_def)
  have inb: "m * CHUNK < length rows"
    using lt assms(1) by (simp add: CHUNK_def)
  have none: "upsert_error d ((m * CHUNK) div CHUNK) = None"
    using assms(3) lt dv by simp
  have n: "n = k - Suc m" "Suc m \<le> k"
    using Suc.hyps(2) by simp_all
  have ih: "upsert_chunks d rows (Suc m * CHUNK) (store_upsert ?slice s) =
      (store_upsert (take ((k - Suc m) * CHUNK) (drop (Suc m * CHUNK) rows)) (store_upsert ?slice s),
       map (\<lambda>i. Upsert (take CHUNK (drop (i * CHUNK) rows))) [Suc m..<Suc k], Some e)"
    by (rule Suc.hyps(1) [OF n])
  have idx: "m * CHUNK + CHUNK = Suc m * CHUNK"
    by simp
  have "(k - m) * CHUNK = CHUNK + (k - Suc m) * CHUNK"
    using lt by (metis Suc_diff_Suc mult_Suc)
  then have "take ((k - m) * CHUNK) (drop (m * CHUNK) rows) =
      ?slice @ take ((k - Suc m) * CHUNK) (drop CHUNK (drop (m * CHUNK) rows))"
    by (simp only: take_add)
  moreover have "drop CHUNK (drop (m * CHUNK) rows) = drop (Suc m * CHUNK) rows"
    by (simp add: add.commute)
  ultimately have st: "store_upsert (take ((k - Suc m) * CHUNK) (drop (Suc m * CHUNK) rows))
      (store_upsert ?slice s) = store_upsert (take ((k - m) * CHUNK) (drop (m * CHUNK) rows)) s"
    by (simp add: store_upsert_append)
  have ops: "[m..<Suc k] = m # [Suc m..<Suc k]"
    using lt by (simp add: upt_conv_Cons)
  have "upsert_chunks d rows (m * CHUNK) s =
      (case upsert_chunks d rows (Suc m * CHUNK) (store_upsert ?slice s) of
         (s', ops, r) \<Rightarrow> (s', Upsert ?slice # ops, r))"
    using upsert_chunks_step [OF inb none, of s] unfolding idx .
  then show ?case
    unfolding ih st ops by simp
qed

lemma updateDatabase_first_failure:
  assumes "k * CHUNK < length (jobs p)" "upsert_error d k = Some e" "\<forall>i<k. upsert_error d i = None"
  shows "updateDatabase d p s =
     (store_upsert (take (k * CHUNK) (map (to_row (scraped_at p)) (jobs p))) s,
      map (\<lambda>i. Upsert (take CHUNK (drop (i * CHUNK) (map (to_row (scraped_at p)) (jobs p)))))
        [0..<Suc k],
      Some e)"
proof -
  let ?rows = "map (to_row (scraped_at p)) (jobs p)"
  have "k * CHUNK < length ?rows"
    using assms(1) by simp
  then have "upsert_chunks d ?rows (0 * CHUNK) s =
     (store_upsert (take ((k - 0) * CHUNK) (drop (0 * CHUNK) ?rows)) s,
      map (\<lambda>i. Upsert (take CHUNK (drop (i * CHUNK) ?rows))) [0..<Suc k], Some e)"
    using assms(2,3) by (intro upsert_chunks_first_failure) simp_all
  then have "upsert_chunks d ?rows 0 s =
     (store_upsert (take (k * CHUNK) ?rows) s,
      map (\<lambda>i. Upsert (take CHUNK (drop (i * CHUNK) ?rows))) [0..<Suc k], Some e)"
    by simp
  then show ?thesis
    by (simp add: updateDatabase_def Let_def)
qed

lemma first_failing_chunk:
  assumes "\<exists>k. k * CHUNK < n \<and> upsert_error d k \<noteq> None"
  shows "\<exists>k e. k * CHUNK < n \<and> upsert_error d k = Some e \<and> (\<forall>i<k. upsert_error d i = None)"
proof -
  let ?P = "\<lambda>k. upsert_error d k \<noteq> None"
  obtain k0 where k0: "k0 * CHUNK < n" "?P k0"
    using assms by blast
  let ?k = "LEAST k. ?P k"
  have p: "?P ?k"
    using k0(2) by (rule LeastI)
  have le: "?k \<le> k0"
    using k0(2) by (rule Least_le)
  have "\<forall>i<?k. upsert_error d i = None"
    using not_less_Least [of _ ?P] by blast
  moreover have "?k * CHUNK < n"
    using le k0(1) by (meson le_less_trans mult_le_mono1)
  moreover obtain e where "upsert_error d ?k = Some e"
    using p by blast
  ultimately show ?thesis
    by blast
qed

subsection \<open>The calls of index.js\<close>

lemma upsert_each_index_calls:
  "snd (upsert_each_index d clock k jl s) =
     map (\<lambda>(i, j). Upsert [to_row (clock i) j]) (zip [k..<k + length jl] jl)"
proof (induction jl arbitrary: k s)
  case Nil
  then show ?case by simp
next
  case (Cons j jl)
  let ?s = "case upsert_error d (k - 1) of None \<Rightarrow> store_upsert [to_row (clock k) j] s | Some e \<Rightarrow> s"
  have u: "[k..<k + length (j # jl)] = k # [k + 1..<k + 1 + length jl]"
    by (subst upt_rec) (simp del: upt_Suc)
  have "snd (upsert_each_index d clock (k + 1) jl ?s) =
      map (\<lambda>(i, j). Upsert [to_row (clock i) j]) (zip [k + 1..<k + 1 + length jl] jl)"
    by (rule Cons.IH)
  then show ?case
    unfolding upsert_each_index_snd u by simp
qed

lemma upsert_each_index_store:
  "\<forall>i. upsert_error d i = None \<Longrightarrow>
   fst (upsert_each_index d clock k jl s) =
     store_upsert (map (\<lambda>(i, j). to_row (clock i) j) (zip [k..<k + length jl] jl)) s"
proof (induction jl arbitrary: k s)
  case Nil
  then show ?case by simp
next
  case (Cons j jl)
  have u: "[k..<k + length (j # jl)] = k # [k + 1..<k + 1 + length jl]"
    by (subst upt_rec) (simp del: upt_Suc)
  have e: "upsert_error d (k - 1) = None"
    using Cons.prems by simp
  have "fst (upsert_each_index d clock (k + 1) jl (store_upsert [to_row (clock k) j] s)) =
      store_upsert (map (\<lambda>(i, j). to_row (clock i) j) (zip [k + 1..<k + 1 + length jl] jl))
        (store_upsert [to_row (clock k) j] s)"
    using Cons.prems by (rule Cons.IH)
  then show ?case
    unfolding upsert_each_index_fst u e by (simp add: store_upsert_Cons)
qed

lemma store_upsert_distinct:
  assumes "distinct (map url rs)" "i < length rs"
  shows "store_upsert rs s (url (rs ! i)) = Some (rs ! i)"
proof -
  have "url (rs ! i) \<in> url ` set rs"
    using assms(2) by simp
  then obtain r where r: "r \<in> set rs" "url r = url (rs ! i)" "store_upsert rs s (url (rs ! i)) = Some r"
    using store_upsert_hit [of "url (rs ! i)" rs s] by blast
  obtain j where j: "j < length rs" "rs ! j = r"
    using r(1) by (auto simp: in_set_conv_nth)
  have "map url rs ! j = map url rs ! i"
    using j r(2) assms(2) by simp
  moreover have "(map url rs ! j = map url rs ! i) = (j = i)"
    using assms(1) by (rule nth_eq_iff_index_eq) (use j(1) assms(2) in simp_all)
  ultimately have "j = i"
    by blast
  then show ?thesis
    using r(3) j(2) by simp
qed

lemma stamped_rows_nth:
  "i < length jl \<Longrightarrow>
   map (\<lambda>(i, j). to_row (clock i) j) (zip [k..<k + length jl] jl) ! i = to_row (clock (k + i)) (jl ! i)"
  by simp

lemma stamped_rows_urls:
  "map url (map (\<lambda>(i, j). to_row (clock i) j) (zip [k..<k + length jl] jl)) = map href jl"
proof -
  have "map url (map (\<lambda>(i, j). to_row (clock i) j) (zip [k..<k + length jl] jl)) =
      map (href \<circ> snd) (zip [k..<k + length jl] jl)"
    by (simp add: case_prod_unfold comp_def)
  also have "\<dots> = map href (map snd (zip [k..<k + length jl] jl))"
    by (simp only: map_map)
  also have "map snd (zip [k..<k + length jl] jl) = jl"
    by (rule map_snd_zip) simp
  finally show ?thesis .
qed

lemma updateDatabase_index_closed:
  "updateDatabase_index d clock p s =
     (fst (upsert_each_index d clock 1 (jobs p)
        (case update_error d of None \<Rightarrow> store_set_inactive is_active s | Some e \<Rightarrow> s)),
      DeactivateAll #
        map (\<lambda>(i, j). Upsert [to_row (clock i) j]) (zip [1..<Suc (length (jobs p))] (jobs p)),
      None)"
proof -
  let ?s1 = "case update_error d of None \<Rightarrow> store_set_inactive is_active s | Some e \<Rightarrow> s"
  obtain s2 ops where r: "upsert_each_index d clock 1 (jobs p) ?s1 = (s2, ops)"
    by (cases "upsert_each_index d clock 1 (jobs p) ?s1") auto
  have "snd (upsert_each_index d clock 1 (jobs p) ?s1) =
      map (\<lambda>(i, j). Upsert [to_row (clock i) j]) (zip [1..<1 + length (jobs p)] (jobs p))"
    by (rule upsert_each_index_calls)
  then have "ops =
      map (\<lambda>(i, j). Upsert [to_row (clock i) j]) (zip [1..<Suc (length (jobs p))] (jobs p))"
    unfolding r by (simp del: upt_Suc)
  then show ?thesis
    using r by (simp add: updateDatabase_index_def Let_def del: upt_Suc)
qed

lemma updateDatabase_index_rows:
  assumes "\<forall>i. upsert_error d i = None" "distinct (map href (jobs p))" "i < length (jobs p)"
  shows "fst (updateDatabase_index d clock p s) (href (jobs p ! i)) =
     Some (to_row (clock (Suc i)) (jobs p ! i))"
proof -
  let ?s1 = "case update_error d of None \<Rightarrow> store_set_inactive is_active s | Some e \<Rightarrow> s"
  let ?rows = "map (\<lambda>(i, j). to_row (clock i) j) (zip [1..<1 + length (jobs p)] (jobs p))"
  have f: "fst (updateDatabase_index d clock p s) = store_upsert ?rows ?s1"
    using upsert_each_index_store [OF assms(1), of clock 1 "jobs p" ?s1]
    by (simp add: updateDatabase_index_closed)
  have d: "distinct (map url ?rows)"
    using assms(2) by (simp only: stamped_rows_urls)
  have len: "i < length ?rows"
    using assms(3) by simp
  have nth: "?rows ! i = to_row (clock (1 + i)) (jobs p ! i)"
    using assms(3) by (rule stamped_rows_nth)
  have "store_upsert ?rows ?s1 (url (?rows ! i)) = Some (?rows ! i)"
    using d len by (rule store_upsert_distinct)
  then show ?thesis
    unfolding f nth by simp
qed

lemma demo_db_ok: "(\<forall>k. upsert_error demo_db k = None) \<and> update_error demo_db = None"
  by (simp add: demo_db_def)

lemma demo_store1_closed:
  "demo_store1 = store_set_inactive (\<lambda>r. is_active r \<and> updated_at r < 100)
     (store_upsert (map (to_row 100) [demo_job 0, demo_job 1]) Map.empty)"
proof -
  let ?run = "updateDatabase demo_db (demo_payload 100 [0, 1]) Map.empty"
  have "snd (snd ?run) = None"
    using demo_db_ok by (simp add: updateDatabase_succeeds)
  then have "?run = (fst ?run, fst (snd ?run), None)"
    by (metis prod.collapse)
  then show ?thesis
    using updateDatabase_ok [of demo_db "demo_payload 100 [0, 1]" Map.empty "fst ?run" "fst (snd ?run)"]
    by (simp add: demo_store1_def demo_payload_def)
qed

lemma demo_store1_rows:
  "demo_store1 (href (demo_job 0)) = Some (to_row 100 (demo_job 0))
   \<and> demo_store1 (href (demo_job 1)) = Some (to_row 100 (demo_job 1))
   \<and> demo_store1 (href (demo_job 2)) = None"
  by (simp add: demo_store1_closed store_upsert_def store_set_inactive_def to_row_def demo_job_def)

lemma demo_scrapeJobs: "\<exists>p. scrapeJobs demo_site now = ([0, 10], Inr p) \<and> length (jobs p) = 14"
  by (simp add: scrapeJobs_def scrapeJobs_loop.simps [of demo_site] Let_def demo_site_def
      PAGE_SIZE_def MAX_PAGES_def page_defs make_payload_def merge_jobs_def
      split: prod.splits sum.splits)

lemma demo_scrapeJobs_index:
  "\<exists>p. scrapeJobs_index demo_site now = Some ([0, 10], Inr p) \<and> length (jobs p) = 14"
  by (simp add: scrapeJobs_index_def scrapeJobs_index_loop.simps [of demo_site] Let_def
      demo_site_def PAGE_SIZE_def page_defs make_payload_index_def merge_jobs_def
      split: prod.splits sum.splits)

lemma demo_scrapeAll: "\<exists>p. scrapeAll demo_config demo_site demo_controls now = ([1, 2, 3], Inr p)"
proof -
  have c: "cfg_MAX_PAGES demo_config = 60" "cfg_PAGINATION_MODE demo_config = js ''next''"
    by (simp_all add: demo_config_def)
  show ?thesis
    by (simp add: scrapeAll_def next_loop.simps [of demo_config demo_site] c Let_def demo_site_def
        demo_controls_def page_defs batch_of_def merge_jobs_def map_size_def
        split: prod.splits sum.splits)
qed


lemma main_index_exit:
  "scrapeJobs_index (w_site w) (w_clock w 0) = Some (loads, Inr p) \<Longrightarrow>
   map_option (snd \<circ> snd) (main_index w) = Some 0"
  by (simp add: main_index_def split: prod.splits)



section \<open>Text normalizer: the properties\<close>

text \<open>
  C9. \<open>norm\<close> (and \<open>normaliseText\<close>, the same function) is a total function of a string or
  null. Null and the empty string give the empty string. It is idempotent. Its result has
  no whitespace at either end, every whitespace unit left in it is a single space between
  two units that are not whitespace, and the units that are not whitespace are those of the
  input, in order; in words, the result is the maximal runs of units that are not whitespace
  of the input, joined by single spaces. \<open>norm("  a   b ") = "a b"\<close>.
\<close>

theorem norm_total_idempotent:
  "norm None = []
   \<and> norm (Some []) = []
   \<and> norm (Some (norm s)) = norm s
   \<and> single_spaced (norm s)
   \<and> dropWhile is_ws (norm s) = norm s
   \<and> dropWhile is_ws (rev (norm s)) = rev (norm s)
   \<and> filter (\<lambda>c. \<not> is_ws c) (norm s) = filter (\<lambda>c. \<not> is_ws c) (or_empty s)
   \<and> norm s = spec_normalize s
   \<and> norm (Some (js ''  a   b '')) = js ''a b''
   \<and> normaliseText s = norm s"
proof -
  have "norm None = []" "norm (Some []) = []"
    by (simp_all add: norm_def or_empty_def trim_def)
  moreover have "single_spaced (norm s)"
    by (simp add: norm_def single_spaced_trim single_spaced_replace_ws)
  moreover have "dropWhile is_ws (norm s) = norm s"
    by (simp add: norm_def trim_no_leading)
  moreover have "dropWhile is_ws (rev (norm s)) = rev (norm s)"
    by (simp add: norm_def trim_no_trailing)
  moreover have "filter (\<lambda>c. \<not> is_ws c) (norm s) = filter (\<lambda>c. \<not> is_ws c) (or_empty s)"
    by (simp add: norm_def filter_nonws_trim filter_nonws_replace_ws)
  moreover have "normaliseText s = norm s"
    by (simp add: norm_def normaliseText_def)
  ultimately show ?thesis
    using norm_idem [of s] norm_spec [of s] norm_example by blast
qed

theorem norm_total_idempotent_witness:
  "norm (Some (norm (Some (js '' Senior   Engineer '')))) = js ''Senior Engineer''
   \<and> single_spaced (js ''Senior Engineer'')
   \<and> normaliseText (Some (js '' Senior   Engineer '')) = js ''Senior Engineer''
   \<and> js ''Senior Engineer'' = spec_normalize (Some (js '' Senior   Engineer ''))"
proof -
  have v: "norm (Some (js '' Senior   Engineer '')) = js ''Senior Engineer''"
    by (simp add: eval_defs)
  show ?thesis
    using norm_total_idempotent [of "Some (js '' Senior   Engineer '')"] unfolding v by blast
qed

text \<open>
  C8 (amended). In part_000 and part_001 \<open>extractCountry\<close> splits the normalized location on
  commas, trims each segment, drops the empty segments and returns the last segment left, or
  the empty string when none is left; its result holds no comma and is trimmed. In index.js
  \<open>extractCountry_index\<close> drops nothing: it returns the trimmed last comma segment, which
  agrees with the above whenever it is not empty. The three examples hold in every script.
\<close>

theorem extractCountry_last_segment:
  "extractCountry l = spec_extractCountry l
   \<and> 44 \<notin> set (extractCountry l)
   \<and> trim (extractCountry l) = extractCountry l
   \<and> extractCountry (Some (js ''City, Region, Country'')) = js ''Country''
   \<and> extractCountry (Some []) = []
   \<and> extractCountry (Some (js ''OnlyOne'')) = js ''OnlyOne''
   \<and> extractCountry_index l = trim (last (js_split 44 (normaliseText l)))
   \<and> (extractCountry_index l \<noteq> [] \<longrightarrow> extractCountry_index l = spec_extractCountry l)
   \<and> extractCountry_index (Some (js ''City, Region, Country'')) = js ''Country''
   \<and> extractCountry_index (Some []) = []
   \<and> extractCountry_index (Some (js ''OnlyOne'')) = js ''OnlyOne''"
proof -
  have "extractCountry (Some (js ''City, Region, Country'')) = js ''Country''"
    by (simp add: eval_defs)
  moreover have "extractCountry (Some []) = []"
    by (simp add: eval_defs)
  moreover have "extractCountry (Some (js ''OnlyOne'')) = js ''OnlyOne''"
    by (simp add: eval_defs)
  moreover have "extractCountry_index (Some (js ''City, Region, Country'')) = js ''Country''"
    by (simp add: eval_defs)
  moreover have "extractCountry_index (Some []) = []"
    by (simp add: eval_defs)
  moreover have "extractCountry_index (Some (js ''OnlyOne'')) = js ''OnlyOne''"
    by (simp add: eval_defs)
  ultimately show ?thesis
    using extractCountry_spec [of l] extractCountry_no_comma [of l] extractCountry_trimmed [of l]
      extractCountry_index_last [of l] extractCountry_index_spec [of l]
    by blast
qed

theorem extractCountry_last_segment_witness:
  "extractCountry_index (Some (js ''Cork, Ireland'')) \<noteq> []
   \<and> extractCountry_index (Some (js ''Cork, Ireland'')) = spec_extractCountry (Some (js ''Cork, Ireland''))
   \<and> extractCountry (Some (js ''Cork, Ireland'')) = js ''Ireland''"
proof -
  have h: "extractCountry_index (Some (js ''Cork, Ireland'')) \<noteq> []"
    by (simp add: eval_defs)
  have v: "extractCountry (Some (js ''Cork, Ireland'')) = js ''Ireland''"
    by (simp add: eval_defs)
  show ?thesis
    using extractCountry_last_segment [of "Some (js ''Cork, Ireland'')"] h v by blast
qed

text \<open>
  The input on which index.js departs from the sentence of the specification: a trailing comma. The last
  segment that is not empty is \<open>Ireland\<close>; \<open>extractCountry_index\<close> returns the empty string.
\<close>

theorem extractCountry_index_trailing_comma:
  "extractCountry_index (Some (js ''Dublin, Ireland,'')) = []
   \<and> spec_extractCountry (Some (js ''Dublin, Ireland,'')) = js ''Ireland''
   \<and> extractCountry_index (Some (js ''Dublin, Ireland,'')) \<noteq> spec_extractCountry (Some (js ''Dublin, Ireland,''))"
  by (simp add: eval_defs)

section \<open>Pagination, extraction and aggregation: the properties\<close>

text \<open>
  C3 (amended). part_000 loads at most \<open>MAX_PAGES\<close> pages, at the offsets 0, 10, 20, ...,
  each once, so that its visited-offset check never fires. Every page before the last one
  loaded lets the loop go on; a run that ends before the cap ends with the first page that
  cannot be extracted, whose batch is empty or whose batch has fewer than \<open>PAGE_SIZE\<close>
  records. index.js has neither the cap nor the check: it stops exactly at the first such
  page when there is one, and never leaves the loop when there is none.
\<close>

theorem offset_pagination_stops:
  "(let loads = fst (scrapeJobs st now) in
      length loads \<le> MAX_PAGES
      \<and> loads = map (\<lambda>k. k * PAGE_SIZE) [0..<length loads]
      \<and> distinct loads
      \<and> (\<forall>k. k + 1 < length loads \<longrightarrow> continues (int PAGE_SIZE) (scrapePage (st k)))
      \<and> (length loads < MAX_PAGES \<longrightarrow>
           loads \<noteq> [] \<and> \<not> continues (int PAGE_SIZE) (scrapePage (st (length loads - 1)))))
   \<and> (\<forall>loads r. scrapeJobs_index st now = Some (loads, r) \<longrightarrow>
        loads = map (\<lambda>k. k * PAGE_SIZE) [0..<length loads] \<and> loads \<noteq> []
        \<and> (\<forall>k. k + 1 < length loads \<longrightarrow> continues (int PAGE_SIZE) (scrapePage_index (st k)))
        \<and> \<not> continues (int PAGE_SIZE) (scrapePage_index (st (length loads - 1))))
   \<and> ((\<exists>k. \<not> continues (int PAGE_SIZE) (scrapePage_index (st k))) \<longrightarrow> scrapeJobs_index st now \<noteq> None)
   \<and> ((\<forall>k. continues (int PAGE_SIZE) (scrapePage_index (st k))) \<longrightarrow> scrapeJobs_index st now = None)"
proof (intro conjI)
  let ?f = "\<lambda>k. scrapePage (st k)"
  obtain n q where nq: "pages_loop ?f (int PAGE_SIZE) MAX_PAGES 0 [] = (n, q)"
    by (cases "pages_loop ?f (int PAGE_SIZE) MAX_PAGES 0 []") auto
  have loads: "fst (scrapeJobs st now) = map (\<lambda>k. k * PAGE_SIZE) [0..<n]"
    using nq by (simp add: scrapeJobs_loads)
  have len: "length (fst (scrapeJobs st now)) = n"
    using loads by simp
  have "distinct (map (\<lambda>k. k * PAGE_SIZE) [0..<n])"
    by (simp add: distinct_map inj_on_def PAGE_SIZE_def)
  moreover have "n \<le> MAX_PAGES"
    using pages_loop_bound [OF nq] by simp
  moreover have "\<forall>k. k + 1 < n \<longrightarrow> continues (int PAGE_SIZE) (?f k)"
    using pages_loop_before_last [OF nq] by simp
  moreover have "n < MAX_PAGES \<longrightarrow> 0 < n \<and> \<not> continues (int PAGE_SIZE) (?f (n - 1))"
    using pages_loop_early [OF nq] by simp
  ultimately show "let loads = fst (scrapeJobs st now) in
      length loads \<le> MAX_PAGES
      \<and> loads = map (\<lambda>k. k * PAGE_SIZE) [0..<length loads]
      \<and> distinct loads
      \<and> (\<forall>k. k + 1 < length loads \<longrightarrow> continues (int PAGE_SIZE) (scrapePage (st k)))
      \<and> (length loads < MAX_PAGES \<longrightarrow>
           loads \<noteq> [] \<and> \<not> continues (int PAGE_SIZE) (scrapePage (st (length loads - 1))))"
    unfolding Let_def len unfolding loads by auto
next
  show "\<forall>loads r. scrapeJobs_index st now = Some (loads, r) \<longrightarrow>
        loads = map (\<lambda>k. k * PAGE_SIZE) [0..<length loads] \<and> loads \<noteq> []
        \<and> (\<forall>k. k + 1 < length loads \<longrightarrow> continues (int PAGE_SIZE) (scrapePage_index (st k)))
        \<and> \<not> continues (int PAGE_SIZE) (scrapePage_index (st (length loads - 1)))"
  proof (intro allI impI)
    fix loads r
    assume "scrapeJobs_index st now = Some (loads, r)"
    then obtain cap n q where c:
      "pages_loop (\<lambda>k. scrapePage_index (st k)) (int PAGE_SIZE) cap 0 [] = (n, q)"
      "n < cap" "loads = map (\<lambda>k. k * PAGE_SIZE) [0..<n]"
      using scrapeJobs_index_Some by blast
    have len: "length loads = n"
      using c(3) by simp
    have "0 < n \<and> \<not> continues (int PAGE_SIZE) (scrapePage_index (st (n - 1)))"
      using pages_loop_early [OF c(1)] c(2) by simp
    moreover have "\<forall>k. k + 1 < n \<longrightarrow> continues (int PAGE_SIZE) (scrapePage_index (st k))"
      using pages_loop_before_last [OF c(1)] by simp
    ultimately show "loads = map (\<lambda>k. k * PAGE_SIZE) [0..<length loads] \<and> loads \<noteq> []
        \<and> (\<forall>k. k + 1 < length loads \<longrightarrow> continues (int PAGE_SIZE) (scrapePage_index (st k)))
        \<and> \<not> continues (int PAGE_SIZE) (scrapePage_index (st (length loads - 1)))"
      unfolding len using c(3) by auto
  qed
next
  show "(\<exists>k. \<not> continues (int PAGE_SIZE) (scrapePage_index (st k))) \<longrightarrow> scrapeJobs_index st now \<noteq> None"
  proof
    assume "\<exists>k. \<not> continues (int PAGE_SIZE) (scrapePage_index (st k))"
    then obtain k where "\<not> continues (int PAGE_SIZE) (scrapePage_index (st k))" ..
    then obtain y where "scrapeJobs_index_loop st (0 * PAGE_SIZE) [] [] = Some y"
      using index_loop_returns [of 0 k st "[]" "[]"] by auto
    then show "scrapeJobs_index st now \<noteq> None"
      by (auto simp: scrapeJobs_index_def split: sum.splits prod.splits)
  qed
next
  show "(\<forall>k. continues (int PAGE_SIZE) (scrapePage_index (st k))) \<longrightarrow> scrapeJobs_index st now = None"
  proof
    assume "\<forall>k. continues (int PAGE_SIZE) (scrapePage_index (st k))"
    then have "scrapeJobs_index_loop st (0 * PAGE_SIZE) [] [] = None"
      using index_loop_diverges [of 0 st "[]" "[]"] by simp
    then show "scrapeJobs_index st now = None"
      by (simp add: scrapeJobs_index_def)
  qed
qed

theorem offset_pagination_stops_witness:
  "fst (scrapeJobs demo_site 0) = [0, 10]
   \<and> continues (int PAGE_SIZE) (scrapePage (demo_site 0))
   \<and> \<not> continues (int PAGE_SIZE) (scrapePage (demo_site 1))
   \<and> \<not> continues (int PAGE_SIZE) (scrapePage_index (demo_site 1))
   \<and> scrapeJobs_index demo_site 0 \<noteq> None
   \<and> scrapeJobs_index endless_site 0 = None"
proof -
  have a: "\<not> continues (int PAGE_SIZE) (scrapePage_index (demo_site 1))"
    by (simp add: continues_def demo_site_def PAGE_SIZE_def page_defs)
  have b: "\<forall>k. continues (int PAGE_SIZE) (scrapePage_index (endless_site k))"
    using endless_continues by simp
  have c: "length (fst (scrapeJobs demo_site 0)) < MAX_PAGES"
    by (simp add: demo_loads MAX_PAGES_def)
  show ?thesis
    using offset_pagination_stops [of demo_site 0] offset_pagination_stops [of endless_site 0]
      a b c demo_loads [of 0] demo_continues0 demo_continues1
    by (auto simp: Let_def)
qed

text \<open>index.js on a site that answers every load with a full page: the run never leaves the loop.\<close>

theorem index_pagination_unbounded:
  "scrapeJobs_index endless_site 0 = None \<and> length (fst (scrapeJobs endless_site 0)) = MAX_PAGES"
proof -
  have "scrapeJobs_index_loop endless_site (0 * PAGE_SIZE) [] [] = None"
    using index_loop_diverges [of 0 endless_site "[]" "[]"] endless_continues by simp
  then have "scrapeJobs_index endless_site 0 = None"
    by (simp add: scrapeJobs_index_def)
  moreover have "length (fst (scrapeJobs endless_site 0)) = MAX_PAGES"
  proof -
    let ?f = "\<lambda>k. scrapePage (endless_site k)"
    obtain n q where nq: "pages_loop ?f (int PAGE_SIZE) MAX_PAGES 0 [] = (n, q)"
      by (cases "pages_loop ?f (int PAGE_SIZE) MAX_PAGES 0 []") auto
    have "continues (int PAGE_SIZE) (?f k)" for k
      by (simp add: continues_def endless_site_def PAGE_SIZE_def page_defs)
    then have "\<not> n < MAX_PAGES"
      using pages_loop_early [OF nq] by auto
    moreover have "n \<le> MAX_PAGES"
      using pages_loop_bound [OF nq] by simp
    ultimately show ?thesis
      using nq by (simp add: scrapeJobs_loads)
  qed
  ultimately show ?thesis by simp
qed

text \<open>
  C4. In next mode the loop body is entered for \<open>p = 2, 3, ...\<close>, at most
  \<open>MAX_PAGES - 1\<close> times. An iteration after which the loop does not go on (the next control
  is absent or disabled, the page cannot be extracted, its batch is empty, or merging it
  adds no link to the aggregate) is the last one; and a run that ends before the cap ends
  with such an iteration. The first page is loaded before the loop and does not stop the
  run when it is empty.
\<close>

theorem next_pagination_stops:
  "(let its = fst (next_loop cfg st ctl 2 m) in
      int (length its) \<le> max 0 (cfg_MAX_PAGES cfg - 1)
      \<and> its = [2..<2 + length its]
      \<and> (\<forall>k\<in>set its.
            \<not> goes_on (ctl k) (scrapePage_bolt (st (k - 1)))
                (merged_pages (\<lambda>q. scrapePage_bolt (st (q - 1))) [2..<k] m)
            \<longrightarrow> k = last its)
      \<and> (int (length its) < cfg_MAX_PAGES cfg - 1 \<longrightarrow>
            its \<noteq> []
            \<and> \<not> goes_on (ctl (last its)) (scrapePage_bolt (st (last its - 1)))
                (merged_pages (\<lambda>q. scrapePage_bolt (st (q - 1))) [2..<last its] m)))
   \<and> (cfg_PAGINATION_MODE cfg = js ''next'' \<longrightarrow>
        (\<forall>first. scrapePage_bolt (st 0) = Inr first \<longrightarrow>
           fst (scrapeAll cfg st ctl now) =
             1 # map int (fst (next_loop cfg st ctl 2 (merge_jobs first [])))))"
proof (intro conjI)
  obtain its r where ir: "next_loop cfg st ctl 2 m = (its, r)"
    by (cases "next_loop cfg st ctl 2 m") auto
  let ?n = "length its"
  have shape: "its = [2..<2 + ?n]" and bound: "?n \<le> nat (cfg_MAX_PAGES cfg + 1 - int 2)"
    using next_loop_shape [OF ir] by simp_all
  have last: "its \<noteq> [] \<Longrightarrow> last its = 2 + ?n - 1"
  proof -
    assume "its \<noteq> []"
    then have "2 < 2 + ?n" by simp
    then have "last [2..<2 + ?n] = 2 + ?n - 1" by (rule last_upt)
    then show ?thesis using shape by simp
  qed
  have a: "int ?n \<le> max 0 (cfg_MAX_PAGES cfg - 1)"
    using bound by simp
  have b: "\<forall>k\<in>set its.
            \<not> goes_on (ctl k) (scrapePage_bolt (st (k - 1)))
                (merged_pages (\<lambda>q. scrapePage_bolt (st (q - 1))) [2..<k] m)
            \<longrightarrow> k = last its"
  proof (intro ballI impI)
    fix k
    assume k: "k \<in> set its"
      and stop: "\<not> goes_on (ctl k) (scrapePage_bolt (st (k - 1)))
                (merged_pages (\<lambda>q. scrapePage_bolt (st (q - 1))) [2..<k] m)"
    have ne: "its \<noteq> []" using k by auto
    have range: "2 \<le> k" "k < 2 + ?n"
      using k shape by (metis atLeastLessThan_iff set_upt)+
    have "\<not> k + 1 < 2 + ?n"
      using next_loop_before_last [OF ir range(1)] stop by blast
    then have "k = 2 + ?n - 1"
      using range by simp
    then show "k = last its"
      using last [OF ne] by simp
  qed
  have c: "int ?n < cfg_MAX_PAGES cfg - 1 \<longrightarrow>
            its \<noteq> []
            \<and> \<not> goes_on (ctl (last its)) (scrapePage_bolt (st (last its - 1)))
                (merged_pages (\<lambda>q. scrapePage_bolt (st (q - 1))) [2..<last its] m)"
  proof
    assume "int ?n < cfg_MAX_PAGES cfg - 1"
    then have "int (2 + ?n) \<le> cfg_MAX_PAGES cfg" by simp
    then have e: "its \<noteq> [] \<and>
        \<not> goes_on (ctl (2 + ?n - 1)) (scrapePage_bolt (st (2 + ?n - 1 - 1)))
          (merged_pages (\<lambda>q. scrapePage_bolt (st (q - 1))) [2..<2 + ?n - 1] m)"
      using next_loop_early [OF ir] by blast
    then show "its \<noteq> []
            \<and> \<not> goes_on (ctl (last its)) (scrapePage_bolt (st (last its - 1)))
                (merged_pages (\<lambda>q. scrapePage_bolt (st (q - 1))) [2..<last its] m)"
      using last by simp
  qed
  show "let its = fst (next_loop cfg st ctl 2 m) in
      int (length its) \<le> max 0 (cfg_MAX_PAGES cfg - 1)
      \<and> its = [2..<2 + length its]
      \<and> (\<forall>k\<in>set its.
            \<not> goes_on (ctl k) (scrapePage_bolt (st (k - 1)))
                (merged_pages (\<lambda>q. scrapePage_bolt (st (q - 1))) [2..<k] m)
            \<longrightarrow> k = last its)
      \<and> (int (length its) < cfg_MAX_PAGES cfg - 1 \<longrightarrow>
            its \<noteq> []
            \<and> \<not> goes_on (ctl (last its)) (scrapePage_bolt (st (last its - 1)))
                (merged_pages (\<lambda>q. scrapePage_bolt (st (q - 1))) [2..<last its] m))"
    unfolding Let_def ir fst_conv using a shape b c by blast
next
  show "cfg_PAGINATION_MODE cfg = js ''next'' \<longrightarrow>
        (\<forall>first. scrapePage_bolt (st 0) = Inr first \<longrightarrow>
           fst (scrapeAll cfg st ctl now) =
             1 # map int (fst (next_loop cfg st ctl 2 (merge_jobs first []))))"
    by (auto simp: scrapeAll_def split: prod.splits sum.splits)
qed

theorem next_pagination_stops_witness:
  "fst (scrapeAll demo_config demo_site demo_controls 0) = [1, 2, 3]
   \<and> last [2, 3 :: nat] = 3
   \<and> next_count (demo_controls 3) = 0
   \<and> \<not> goes_on (demo_controls 3) (scrapePage_bolt (demo_site 2))
        (merged_pages (\<lambda>q. scrapePage_bolt (demo_site (q - 1))) [2..<3]
           (merge_jobs (batch_of (scrapePage_bolt (demo_site 0))) []))"
proof -
  have mode: "cfg_PAGINATION_MODE demo_config = js ''next''"
    by (simp add: demo_config_def)
  have stop: "\<not> goes_on (demo_controls 3) (scrapePage_bolt (demo_site 2))
        (merged_pages (\<lambda>q. scrapePage_bolt (demo_site (q - 1))) [2..<3]
           (merge_jobs (batch_of (scrapePage_bolt (demo_site 0))) []))"
    by (simp add: goes_on_def demo_controls_def)
  have "fst (scrapeAll demo_config demo_site demo_controls 0) =
      1 # map int (fst (next_loop demo_config demo_site demo_controls 2
        (merge_jobs (batch_of (scrapePage_bolt (demo_site 0))) [])))"
    using next_pagination_stops [of demo_config demo_site demo_controls
        "merge_jobs (batch_of (scrapePage_bolt (demo_site 0))) []" 0]
      mode demo_first_page
    by blast
  then show ?thesis
    using stop by (simp add: demo_next_its demo_controls_def)
qed


text \<open>
  The mount guard. In part_000 and part_001, when the page was reached and no job link
  shows within the wait, the extractor returns the empty sequence, and the run of part_000
  whose first page is such a page ends with an empty snapshot. In index.js the wait has no
  handler: the extractor throws the timeout and the run ends with exit code 1.
\<close>

theorem unmounted_page_is_empty_batch:
  "(goto_ok pg \<and> \<not> mounted pg \<longrightarrow> scrapePage pg = Inr [] \<and> scrapePage_bolt pg = Inr [])
   \<and> (goto_ok (st 0) \<and> \<not> mounted (st 0) \<longrightarrow>
        scrapeJobs st now = ([0], Inr (make_payload BASE_URL now [])))
   \<and> (goto_ok pg \<and> \<not> mounted pg \<longrightarrow> scrapePage_index pg = Inl TimeoutError)
   \<and> (goto_ok (w_site w 0) \<and> \<not> mounted (w_site w 0) \<longrightarrow>
        main_index w = Some ([Crawl 0], w_store w, 1))"
proof -
  have a: "goto_ok pg \<and> \<not> mounted pg \<longrightarrow> scrapePage pg = Inr [] \<and> scrapePage_bolt pg = Inr []"
    by (simp add: scrapePage_def scrapePage_bolt_def)
  have b: "goto_ok (st 0) \<and> \<not> mounted (st 0) \<longrightarrow>
        scrapeJobs st now = ([0], Inr (make_payload BASE_URL now []))"
  proof
    assume "goto_ok (st 0) \<and> \<not> mounted (st 0)"
    then have "scrapePage (st 0) = Inr []"
      by (simp add: scrapePage_def)
    then show "scrapeJobs st now = ([0], Inr (make_payload BASE_URL now []))"
      by (simp add: scrapeJobs_def scrapeJobs_loop.simps [of st 0] MAX_PAGES_def Let_def
          map_values_def)
  qed
  have c: "goto_ok pg \<and> \<not> mounted pg \<longrightarrow> scrapePage_index pg = Inl TimeoutError"
    by (simp add: scrapePage_index_def)
  have d: "goto_ok (w_site w 0) \<and> \<not> mounted (w_site w 0) \<longrightarrow>
        main_index w = Some ([Crawl 0], w_store w, 1)"
  proof
    assume "goto_ok (w_site w 0) \<and> \<not> mounted (w_site w 0)"
    then have "scrapePage_index (w_site w 0) = Inl TimeoutError"
      by (simp add: scrapePage_index_def)
    then have "scrapeJobs_index_loop (w_site w) 0 [] [] = Some ([0], Inl TimeoutError)"
      by (subst scrapeJobs_index_loop.simps) simp
    then show "main_index w = Some ([Crawl 0], w_store w, 1)"
      by (simp add: main_index_def scrapeJobs_index_def)
  qed
  show ?thesis
    using a b c d by blast
qed

theorem unmounted_page_is_empty_batch_witness:
  "goto_ok empty_page \<and> \<not> mounted empty_page
   \<and> scrapePage empty_page = Inr []
   \<and> scrapePage_bolt empty_page = Inr []
   \<and> scrapeJobs empty_site 7 = ([0], Inr (make_payload BASE_URL 7 []))"
proof -
  have h: "goto_ok empty_page \<and> \<not> mounted empty_page"
    by (simp add: empty_page_def)
  have h0: "goto_ok (empty_site 0) \<and> \<not> mounted (empty_site 0)"
    by (simp add: empty_page_def empty_site_def)
  show ?thesis
    using unmounted_page_is_empty_batch [of empty_page empty_site 7 "demo_world empty_site"] h h0
    by blast
qed

text \<open>
  C5. A page on which no job link shows within the wait is to give the empty batch, the
  signal that there are no more pages, and not an error that ends the run. index.js does
  not do so: on the site with ten links on its first page and no link on its second, the
  second page load throws the timeout, and the run ends with exit code 1 and the table
  untouched, although the loop has its stop for an empty batch; part_000 returns the
  snapshot of the ten records from the same site.
\<close>

theorem index_unmounted_page_aborts:
  "scrapePage_index empty_page = Inl TimeoutError
   \<and> main_index (demo_world exact_site) = Some ([Crawl 0, Crawl 10], Map.empty, 1)
   \<and> fst (scrapeJobs exact_site 100) = [0, 10]
   \<and> (\<exists>p. snd (scrapeJobs exact_site 100) = Inr p \<and> count p = 10)"
proof -
  have a: "scrapePage_index empty_page = Inl TimeoutError"
    by (simp add: scrapePage_index_def empty_page_def)
  have "scrapeJobs_index_loop exact_site 0 [] [] = Some ([0, 10], Inl TimeoutError)"
    by (simp add: scrapeJobs_index_loop.simps [of exact_site] exact_site_def PAGE_SIZE_def
        page_defs)
  then have b: "main_index (demo_world exact_site) = Some ([Crawl 0, Crawl 10], Map.empty, 1)"
    by (simp add: main_index_def scrapeJobs_index_def demo_world_def)
  have c: "\<exists>p. scrapeJobs exact_site 100 = ([0, 10], Inr p) \<and> count p = 10"
    by (simp add: scrapeJobs_def scrapeJobs_loop.simps [of exact_site] Let_def exact_site_def
        PAGE_SIZE_def MAX_PAGES_def page_defs make_payload_def merge_jobs_def
        split: prod.splits sum.splits)
  then have "fst (scrapeJobs exact_site 100) = [0, 10]
      \<and> (\<exists>p. snd (scrapeJobs exact_site 100) = Inr p \<and> count p = 10)"
    by auto
  then show ?thesis
    using a b by simp
qed


text \<open>
  C7. The snapshot of a run is the aggregate of the batches of the pages it loaded, in
  order: its links are the links of those batches in the order of their first sighting,
  each once; the record under a link is the last one a page wrote under it, normalized;
  and \<open>count\<close> is the length of \<open>jobs\<close>. For part_000 and, whenever it returns, for index.js.
\<close>

theorem snapshot_unique_first_sighting_order:
  "(\<forall>loads p. scrapeJobs st now = (loads, Inr p) \<longrightarrow>
      (let raw = concat (map (\<lambda>k. batch_of (scrapePage (st k))) [0..<length loads]) in
         jobs p = map (\<lambda>k. finalize (last_write raw k)) (first_sightings (map href raw))
         \<and> map href (jobs p) = first_sightings (map href raw)
         \<and> distinct (map href (jobs p))
         \<and> count p = length (jobs p)))
   \<and> (\<forall>loads p. scrapeJobs_index st now = Some (loads, Inr p) \<longrightarrow>
      (let raw = concat (map (\<lambda>k. batch_of (scrapePage_index (st k))) [0..<length loads]) in
         jobs p = map (\<lambda>k. finalize_index (last_write raw k)) (first_sightings (map href raw))
         \<and> map href (jobs p) = first_sightings (map href raw)
         \<and> distinct (map href (jobs p))
         \<and> count p = length (jobs p)))"
proof (intro conjI allI impI)
  fix loads p
  assume "scrapeJobs st now = (loads, Inr p)"
  then obtain n m where nm:
    "pages_loop (\<lambda>k. scrapePage (st k)) (int PAGE_SIZE) MAX_PAGES 0 [] = (n, Inr m)"
    "length loads = n" "p = make_payload BASE_URL now (map_values m)"
    using scrapeJobs_Inr by blast
  have "m = merged_pages (\<lambda>k. scrapePage (st k)) [0..<0 + n] []"
    using pages_loop_result [OF nm(1)] by simp
  then have "m = merge_jobs (concat (map (\<lambda>k. batch_of (scrapePage (st k))) [0..<length loads])) []"
    using nm(2) by (simp add: merged_pages_concat)
  then show "let raw = concat (map (\<lambda>k. batch_of (scrapePage (st k))) [0..<length loads]) in
         jobs p = map (\<lambda>k. finalize (last_write raw k)) (first_sightings (map href raw))
         \<and> map href (jobs p) = first_sightings (map href raw)
         \<and> distinct (map href (jobs p))
         \<and> count p = length (jobs p)"
    unfolding Let_def nm(3) using payload_closed by blast
next
  fix loads p
  assume "scrapeJobs_index st now = Some (loads, Inr p)"
  then obtain cap n m where nm:
    "pages_loop (\<lambda>k. scrapePage_index (st k)) (int PAGE_SIZE) cap 0 [] = (n, Inr m)"
    "length loads = n" "p = make_payload_index now (map_values m)"
    using scrapeJobs_index_Inr by blast
  have "m = merged_pages (\<lambda>k. scrapePage_index (st k)) [0..<0 + n] []"
    using pages_loop_result [OF nm(1)] by simp
  then have "m = merge_jobs (concat (map (\<lambda>k. batch_of (scrapePage_index (st k))) [0..<length loads])) []"
    using nm(2) by (simp add: merged_pages_concat)
  then show "let raw = concat (map (\<lambda>k. batch_of (scrapePage_index (st k))) [0..<length loads]) in
         jobs p = map (\<lambda>k. finalize_index (last_write raw k)) (first_sightings (map href raw))
         \<and> map href (jobs p) = first_sightings (map href raw)
         \<and> distinct (map href (jobs p))
         \<and> count p = length (jobs p)"
    unfolding Let_def nm(3) using payload_index_closed by blast
qed

theorem snapshot_unique_first_sighting_order_witness:
  "fst (scrapeJobs demo_site 0) = [0, 10]
   \<and> (case snd (scrapeJobs demo_site 0) of
        Inl e \<Rightarrow> False
      | Inr p \<Rightarrow> count p = 14 \<and> length (jobs p) = 14 \<and> distinct (map href (jobs p)))"
proof -
  obtain p where p: "scrapeJobs demo_site 0 = ([0, 10], Inr p)" "count p = 14"
    using demo_snapshot by blast
  then have "distinct (map href (jobs p)) \<and> count p = length (jobs p)"
    using snapshot_unique_first_sighting_order [of demo_site 0] unfolding Let_def by blast
  then show ?thesis
    using p by simp
qed

text \<open>
  C10. In every script the extractor keeps exactly the anchors whose link and trimmed text
  are both not empty, and raises nothing for the others; every record of a batch and every
  record of a snapshot has a link and a title that are not empty. Location, category and
  team may be empty.
\<close>

theorem records_have_link_and_title:
  "(\<forall>j\<in>set (evaluate_anchors as). has_link_and_title j)
   \<and> (\<forall>j\<in>set (evaluate_anchors_bolt as). has_link_and_title j)
   \<and> evaluate_anchors as = evaluate_anchors (filter (\<lambda>a. extractable (a_href a) a) as)
   \<and> evaluate_anchors_bolt as = evaluate_anchors_bolt (filter (\<lambda>a. extractable (href_bolt a) a) as)
   \<and> (\<forall>loads p. scrapeJobs st now = (loads, Inr p) \<longrightarrow> (\<forall>j\<in>set (jobs p). has_link_and_title j))
   \<and> (\<forall>loads p. scrapeJobs_index st now = Some (loads, Inr p) \<longrightarrow>
        (\<forall>j\<in>set (jobs p). has_link_and_title j))
   \<and> (\<forall>loads p. scrapeAll cfg st ctl now = (loads, Inr p) \<longrightarrow>
        (\<forall>j\<in>set (jobs p). has_link_and_title j))
   \<and> (\<exists>j\<in>set (evaluate_anchors [demo_anchor 0]). location j = [] \<and> category j = [] \<and> team j = [])"
proof -
  have "\<forall>j\<in>set (evaluate_anchors as). has_link_and_title j"
    using evaluate_anchors_ok by blast
  moreover have "\<forall>j\<in>set (evaluate_anchors_bolt as). has_link_and_title j"
    using evaluate_anchors_bolt_ok by blast
  moreover have "\<exists>j\<in>set (evaluate_anchors [demo_anchor 0]). location j = [] \<and> category j = [] \<and> team j = []"
    by (simp add: page_defs)
  ultimately show ?thesis
    using evaluate_anchors_filter [of as] evaluate_anchors_bolt_filter [of as]
      scrapeJobs_all [of st now] scrapeJobs_index_all [of st now] scrapeAll_all [of cfg st ctl now]
    by blast
qed

theorem records_have_link_and_title_witness:
  "evaluate_anchors [demo_anchor 0, demo_anchor 1\<lparr>a_textContent := Some [32, 9]\<rparr>,
      demo_anchor 2\<lparr>a_href := []\<rparr>] = evaluate_anchors [demo_anchor 0]
   \<and> map title (evaluate_anchors [demo_anchor 0]) = [[74, 65]]
   \<and> has_link_and_title (hd (evaluate_anchors [demo_anchor 0]))
   \<and> (case snd (scrapeJobs demo_site 0) of
        Inl e \<Rightarrow> False
      | Inr p \<Rightarrow> list_all has_link_and_title (jobs p))"
proof -
  obtain p where p: "scrapeJobs demo_site 0 = ([0, 10], Inr p)"
    using demo_snapshot by blast
  have t: "map title (evaluate_anchors [demo_anchor 0]) = [[74, 65]]"
    by (simp add: page_defs)
  then have "hd (evaluate_anchors [demo_anchor 0]) \<in> set (evaluate_anchors [demo_anchor 0])"
    by (intro hd_in_set) auto
  then have "has_link_and_title (hd (evaluate_anchors [demo_anchor 0]))"
    using records_have_link_and_title [of "[demo_anchor 0]" demo_site 0 demo_config demo_controls]
    by blast
  moreover have "list_all has_link_and_title (jobs p)"
    using records_have_link_and_title [of "[]" demo_site 0 demo_config demo_controls] p
    unfolding list_all_iff by blast
  ultimately show ?thesis
    using p t demo_blank by simp
qed


section \<open>Reconciliation and start-up: the properties\<close>

text \<open>
  C1 (amended). part_000: when \<open>updateDatabase\<close> ends without error for a snapshot stamped
  \<open>T\<close>, every record of the snapshot is in the table, active, with \<open>updated_at = T\<close>; a row
  whose url is not in the snapshot is set inactive when it was active with
  \<open>updated_at < T\<close> and is left as it was otherwise; the calls issued are the upserts of
  all the rows, in order, and then the one deactivation gated on \<open>T\<close>. A store that answers
  no error makes the run end without error. index.js: the run first sets every active row
  inactive, whatever its stamp, and then upserts one row for each record, in order, the
  \<open>i\<close>-th stamped with the clock at that upsert; a row whose url is not in the snapshot
  ends inactive, and, when no upsert fails and the links of the snapshot are distinct, the
  row of the \<open>i\<close>-th record is the one stamped with the clock at its upsert.
\<close>

theorem reconciliation_by_watermark:
  "(\<forall>s' ops. updateDatabase d p s = (s', ops, None) \<longrightarrow>
      (\<forall>j\<in>set (jobs p). \<exists>r. s' (href j) = Some r \<and> url r = href j \<and> is_active r
          \<and> updated_at r = scraped_at p)
      \<and> (\<forall>u r. u \<notin> href ` set (jobs p) \<and> s u = Some r \<longrightarrow>
            s' u = Some (if is_active r \<and> updated_at r < scraped_at p
                         then r\<lparr>is_active := False\<rparr> else r))
      \<and> (\<forall>u. u \<notin> href ` set (jobs p) \<and> s u = None \<longrightarrow> s' u = None)
      \<and> (\<exists>ups. ops = map Upsert ups @ [DeactivateBefore (scraped_at p)]
            \<and> concat ups = map (to_row (scraped_at p)) (jobs p)))
   \<and> ((\<forall>k. upsert_error d k = None) \<and> update_error d = None \<longrightarrow>
        snd (snd (updateDatabase d p s)) = None)
   \<and> (\<exists>s'. updateDatabase_index d clock p s =
          (s',
           DeactivateAll #
             map (\<lambda>(i, j). Upsert [to_row (clock i) j]) (zip [1..<Suc (length (jobs p))] (jobs p)),
           None)
        \<and> (update_error d = None \<longrightarrow>
             (\<forall>u r. u \<notin> href ` set (jobs p) \<and> s u = Some r \<longrightarrow>
                s' u = Some (r\<lparr>is_active := False\<rparr>)))
        \<and> ((\<forall>k. upsert_error d k = None) \<and> distinct (map href (jobs p)) \<longrightarrow>
             (\<forall>i<length (jobs p).
                s' (href (jobs p ! i)) = Some (to_row (clock (Suc i)) (jobs p ! i)))))"
proof -
  let ?T = "scraped_at p"
  let ?rows = "map (to_row ?T) (jobs p)"
  let ?s1 = "store_upsert ?rows s"
  have urls: "url ` set ?rows = href ` set (jobs p)"
    by (auto simp: image_iff)
  have A: "\<forall>s' ops. updateDatabase d p s = (s', ops, None) \<longrightarrow>
      (\<forall>j\<in>set (jobs p). \<exists>r. s' (href j) = Some r \<and> url r = href j \<and> is_active r
          \<and> updated_at r = scraped_at p)
      \<and> (\<forall>u r. u \<notin> href ` set (jobs p) \<and> s u = Some r \<longrightarrow>
            s' u = Some (if is_active r \<and> updated_at r < scraped_at p
                         then r\<lparr>is_active := False\<rparr> else r))
      \<and> (\<forall>u. u \<notin> href ` set (jobs p) \<and> s u = None \<longrightarrow> s' u = None)
      \<and> (\<exists>ups. ops = map Upsert ups @ [DeactivateBefore (scraped_at p)]
            \<and> concat ups = map (to_row (scraped_at p)) (jobs p))"
  proof (intro allI impI)
    fix s' ops
    assume run: "updateDatabase d p s = (s', ops, None)"
    have s': "s' = store_set_inactive (\<lambda>r. is_active r \<and> updated_at r < ?T) ?s1"
      and ops: "\<exists>ups. ops = map Upsert ups @ [DeactivateBefore ?T] \<and> concat ups = ?rows"
      using updateDatabase_ok [OF run] by simp_all
    have a1: "\<forall>j\<in>set (jobs p). \<exists>r. s' (href j) = Some r \<and> url r = href j \<and> is_active r
          \<and> updated_at r = ?T"
    proof
      fix j
      assume "j \<in> set (jobs p)"
      then have "href j \<in> url ` set ?rows"
        using urls by blast
      then obtain r where r: "r \<in> set ?rows" "url r = href j" "?s1 (href j) = Some r"
        using store_upsert_hit [of "href j" ?rows s] by blast
      then have "is_active r \<and> updated_at r = ?T"
        by (auto simp: to_row_def)
      then show "\<exists>r. s' (href j) = Some r \<and> url r = href j \<and> is_active r \<and> updated_at r = ?T"
        using r by (simp add: s' store_set_inactive_apply)
    qed
    have a2: "\<forall>u r. u \<notin> href ` set (jobs p) \<and> s u = Some r \<longrightarrow>
            s' u = Some (if is_active r \<and> updated_at r < ?T then r\<lparr>is_active := False\<rparr> else r)"
      using urls by (simp add: s' store_set_inactive_apply store_upsert_other)
    have a3: "\<forall>u. u \<notin> href ` set (jobs p) \<and> s u = None \<longrightarrow> s' u = None"
      using urls by (simp add: s' store_set_inactive_apply store_upsert_other)
    show "(\<forall>j\<in>set (jobs p). \<exists>r. s' (href j) = Some r \<and> url r = href j \<and> is_active r
          \<and> updated_at r = scraped_at p)
      \<and> (\<forall>u r. u \<notin> href ` set (jobs p) \<and> s u = Some r \<longrightarrow>
            s' u = Some (if is_active r \<and> updated_at r < scraped_at p
                         then r\<lparr>is_active := False\<rparr> else r))
      \<and> (\<forall>u. u \<notin> href ` set (jobs p) \<and> s u = None \<longrightarrow> s' u = None)
      \<and> (\<exists>ups. ops = map Upsert ups @ [DeactivateBefore (scraped_at p)]
            \<and> concat ups = map (to_row (scraped_at p)) (jobs p))"
      using a1 a2 a3 ops by blast
  qed
  have B: "(\<forall>k. upsert_error d k = None) \<and> update_error d = None \<longrightarrow>
        snd (snd (updateDatabase d p s)) = None"
    by (simp add: updateDatabase_succeeds)
  let ?t1 = "case update_error d of None \<Rightarrow> store_set_inactive is_active s | Some e \<Rightarrow> s"
  let ?t2 = "fst (upsert_each_index d clock 1 (jobs p) ?t1)"
  have c1: "updateDatabase_index d clock p s =
      (?t2,
       DeactivateAll #
         map (\<lambda>(i, j). Upsert [to_row (clock i) j]) (zip [1..<Suc (length (jobs p))] (jobs p)),
       None)"
    by (rule updateDatabase_index_closed)
  have c2: "update_error d = None \<longrightarrow>
      (\<forall>u r. u \<notin> href ` set (jobs p) \<and> s u = Some r \<longrightarrow> ?t2 u = Some (r\<lparr>is_active := False\<rparr>))"
  proof (intro impI allI)
    fix u r
    assume e: "update_error d = None" and a: "u \<notin> href ` set (jobs p) \<and> s u = Some r"
    have "?t2 u = ?t1 u"
      using a by (intro upsert_each_index_other) simp
    also have "?t1 u = store_set_inactive is_active s u"
      using e by simp
    also have "\<dots> = Some (r\<lparr>is_active := False\<rparr>)"
      using a by (auto simp: store_set_inactive_apply)
    finally show "?t2 u = Some (r\<lparr>is_active := False\<rparr>)" .
  qed
  have t2: "fst (updateDatabase_index d clock p s) = ?t2"
    by (simp only: c1 fst_conv)
  have c3: "(\<forall>k. upsert_error d k = None) \<and> distinct (map href (jobs p)) \<longrightarrow>
      (\<forall>i<length (jobs p). ?t2 (href (jobs p ! i)) = Some (to_row (clock (Suc i)) (jobs p ! i)))"
    using updateDatabase_index_rows [of d p _ clock s] unfolding t2 by blast
  have C: "\<exists>s'. updateDatabase_index d clock p s =
          (s',
           DeactivateAll #
             map (\<lambda>(i, j). Upsert [to_row (clock i) j]) (zip [1..<Suc (length (jobs p))] (jobs p)),
           None)
        \<and> (update_error d = None \<longrightarrow>
             (\<forall>u r. u \<notin> href ` set (jobs p) \<and> s u = Some r \<longrightarrow>
                s' u = Some (r\<lparr>is_active := False\<rparr>)))
        \<and> ((\<forall>k. upsert_error d k = None) \<and> distinct (map href (jobs p)) \<longrightarrow>
             (\<forall>i<length (jobs p).
                s' (href (jobs p ! i)) = Some (to_row (clock (Suc i)) (jobs p ! i))))"
    using c1 c2 c3 by (intro exI [of _ ?t2] conjI)
  show ?thesis
    using A B C by blast
qed

text \<open>
  The scenario of the specification: a snapshot of the records 0 and 1 at time 100, then a
  snapshot of the records 1 and 2 at time 200. Record 0 ends inactive, records 1 and 2
  active and stamped 200. In index.js, on the same table and snapshot with the clock at
  100, record 2, the second to be upserted, is stamped 102.
\<close>

theorem reconciliation_by_watermark_witness:
  "snd (snd (updateDatabase demo_db (demo_payload 200 [1, 2]) demo_store1)) = None
   \<and> fst (updateDatabase demo_db (demo_payload 200 [1, 2]) demo_store1) (href (demo_job 0)) =
       Some ((to_row 100 (demo_job 0))\<lparr>is_active := False\<rparr>)
   \<and> (\<exists>r. fst (updateDatabase demo_db (demo_payload 200 [1, 2]) demo_store1) (href (demo_job 1)) = Some r
         \<and> is_active r \<and> updated_at r = 200)
   \<and> (\<exists>r. fst (updateDatabase demo_db (demo_payload 200 [1, 2]) demo_store1) (href (demo_job 2)) = Some r
         \<and> is_active r \<and> updated_at r = 200)
   \<and> fst (updateDatabase_index demo_db demo_clock (demo_payload 200 [1, 2]) demo_store1)
         (href (demo_job 2)) = Some (to_row 102 (demo_job 2))
   \<and> fst (updateDatabase_index demo_db demo_clock (demo_payload 200 [1, 2]) demo_store1)
         (href (demo_job 0)) = Some ((to_row 100 (demo_job 0))\<lparr>is_active := False\<rparr>)"
proof -
  let ?p = "demo_payload 200 [1, 2]"
  let ?run = "updateDatabase demo_db ?p demo_store1"
  note inst = reconciliation_by_watermark [of demo_db ?p demo_store1 demo_clock]
  have ok: "snd (snd ?run) = None"
    using inst demo_db_ok by blast
  then have run: "?run = (fst ?run, fst (snd ?run), None)"
    by (metis prod.collapse)
  have p: "scraped_at ?p = 200" "jobs ?p = [demo_job 1, demo_job 2]"
    by (simp_all add: demo_payload_def)
  have zero: "href (demo_job 0) \<notin> href ` set (jobs ?p)"
    unfolding p by (simp add: demo_job_def)
  have row0: "demo_store1 (href (demo_job 0)) = Some (to_row 100 (demo_job 0))"
    using demo_store1_rows by simp
  have "fst ?run (href (demo_job 0)) =
      Some (if is_active (to_row 100 (demo_job 0)) \<and> updated_at (to_row 100 (demo_job 0)) < scraped_at ?p
            then (to_row 100 (demo_job 0))\<lparr>is_active := False\<rparr> else to_row 100 (demo_job 0))"
    using inst run zero row0 by blast
  then have a: "fst ?run (href (demo_job 0)) = Some ((to_row 100 (demo_job 0))\<lparr>is_active := False\<rparr>)"
    by (simp add: demo_payload_def to_row_def)
  have "\<forall>j\<in>set (jobs ?p). \<exists>r. fst ?run (href j) = Some r \<and> url r = href j \<and> is_active r
      \<and> updated_at r = scraped_at ?p"
    using inst run by blast
  then have b: "\<forall>j\<in>set [demo_job 1, demo_job 2]. \<exists>r. fst ?run (href j) = Some r \<and> is_active r
      \<and> updated_at r = 200"
    unfolding p by blast
  let ?irun = "updateDatabase_index demo_db demo_clock ?p demo_store1"
  let ?calls = "DeactivateAll #
      map (\<lambda>(i, j). Upsert [to_row (demo_clock i) j]) (zip [1..<Suc (length (jobs ?p))] (jobs ?p))"
  have "\<exists>s'. ?irun = (s', ?calls, None)
      \<and> (update_error demo_db = None \<longrightarrow>
         (\<forall>u r. u \<notin> href ` set (jobs ?p) \<and> demo_store1 u = Some r \<longrightarrow>
            s' u = Some (r\<lparr>is_active := False\<rparr>)))
      \<and> ((\<forall>k. upsert_error demo_db k = None) \<and> distinct (map href (jobs ?p)) \<longrightarrow>
         (\<forall>i<length (jobs ?p). s' (href (jobs ?p ! i)) = Some (to_row (demo_clock (Suc i)) (jobs ?p ! i))))"
    by (rule inst [THEN conjunct2, THEN conjunct2])
  then obtain s' where i: "?irun = (s', ?calls, None)"
      "update_error demo_db = None \<longrightarrow>
         (\<forall>u r. u \<notin> href ` set (jobs ?p) \<and> demo_store1 u = Some r \<longrightarrow>
            s' u = Some (r\<lparr>is_active := False\<rparr>))"
      "(\<forall>k. upsert_error demo_db k = None) \<and> distinct (map href (jobs ?p)) \<longrightarrow>
         (\<forall>i<length (jobs ?p). s' (href (jobs ?p ! i)) = Some (to_row (demo_clock (Suc i)) (jobs ?p ! i)))"
    by (elim exE conjE) (rule that)
  have dist: "distinct (map href (jobs ?p))"
    unfolding p by (simp add: demo_job_def)
  have "\<forall>i<length (jobs ?p). s' (href (jobs ?p ! i)) = Some (to_row (demo_clock (Suc i)) (jobs ?p ! i))"
    using i(3) demo_db_ok dist by blast
  then have "1 < length (jobs ?p) \<longrightarrow>
      s' (href (jobs ?p ! 1)) = Some (to_row (demo_clock (Suc 1)) (jobs ?p ! 1))"
    by blast
  moreover have "1 < length (jobs ?p)" "jobs ?p ! 1 = demo_job 2" "demo_clock (Suc 1) = 102"
    unfolding p by (simp_all add: demo_clock_def)
  ultimately have c: "s' (href (demo_job 2)) = Some (to_row 102 (demo_job 2))"
    by simp
  have ue: "update_error demo_db = None"
    by (simp add: demo_db_def)
  have others: "\<forall>u r. u \<notin> href ` set (jobs ?p) \<and> demo_store1 u = Some r \<longrightarrow>
      s' u = Some (r\<lparr>is_active := False\<rparr>)"
    using i(2) ue by (rule mp)
  have d: "s' (href (demo_job 0)) = Some ((to_row 100 (demo_job 0))\<lparr>is_active := False\<rparr>)"
    by (rule others [rule_format, OF conjI [OF zero row0]])
  have "fst ?irun = s'"
    by (simp only: i(1) fst_conv)
  then show ?thesis
    using ok a b c d by simp
qed

text \<open>
  The input on which index.js departs from the sentence of the specification: a snapshot of record 1
  taken at 100, and a table that holds record 0, active, stamped 200. The run issues the
  deactivation first; record 0 ends inactive although its stamp is not below the
  watermark; record 1 is stamped 101, the clock at its upsert, not 100.
\<close>

theorem index_reconciliation_flips_first:
  "fst (updateDatabase_index demo_db demo_clock (demo_payload 100 [1]) late_store) (href (demo_job 0)) =
       Some ((to_row 200 (demo_job 0))\<lparr>is_active := False\<rparr>)
   \<and> fst (updateDatabase_index demo_db demo_clock (demo_payload 100 [1]) late_store) (href (demo_job 1)) =
       Some (to_row 101 (demo_job 1))
   \<and> fst (snd (updateDatabase_index demo_db demo_clock (demo_payload 100 [1]) late_store)) =
       [DeactivateAll, Upsert [to_row 101 (demo_job 1)]]
   \<and> scraped_at (demo_payload 100 [1]) = 100"
  by (simp add: updateDatabase_index_def Let_def demo_payload_def demo_db_def demo_clock_def
      late_store_def store_upsert_def store_set_inactive_def to_row_def demo_job_def)

text \<open>
  The chunk guard of part_000. When chunk \<open>k\<close> is the first whose upsert answers with an
  error, \<open>updateDatabase\<close> throws that error after the upserts of the chunks 0 to \<open>k\<close>: the
  table holds the rows of the chunks before \<open>k\<close>, no later chunk is sent and no deactivation
  is issued, and \<open>main\<close> ends with exit code 1. When some chunk fails, there is a first one.
\<close>

theorem upsert_failure_is_fatal:
  "(k * CHUNK < length (jobs p) \<and> upsert_error d k = Some e \<and> (\<forall>i<k. upsert_error d i = None) \<longrightarrow>
      updateDatabase d p s =
        (store_upsert (take (k * CHUNK) (map (to_row (scraped_at p)) (jobs p))) s,
         map (\<lambda>i. Upsert (take CHUNK (drop (i * CHUNK) (map (to_row (scraped_at p)) (jobs p)))))
           [0..<Suc k],
         Some e)
      \<and> (\<forall>w loads. scrapeJobs (w_site w) (w_clock w 0) = (loads, Inr p) \<and> w_db w = d \<and> w_store w = s
            \<longrightarrow> main w =
                  (map (Crawl \<circ> int) loads @
                     map (\<lambda>i. Db (Upsert (take CHUNK (drop (i * CHUNK)
                       (map (to_row (scraped_at p)) (jobs p)))))) [0..<Suc k],
                   store_upsert (take (k * CHUNK) (map (to_row (scraped_at p)) (jobs p))) s,
                   1)))
   \<and> ((\<exists>k. k * CHUNK < length (jobs p) \<and> upsert_error d k \<noteq> None) \<longrightarrow>
        (\<exists>k e. k * CHUNK < length (jobs p) \<and> upsert_error d k = Some e
           \<and> (\<forall>i<k. upsert_error d i = None)))"
proof -
  let ?rows = "map (to_row (scraped_at p)) (jobs p)"
  let ?ops = "map (\<lambda>i. Upsert (take CHUNK (drop (i * CHUNK) ?rows))) [0..<Suc k]"
  let ?s = "store_upsert (take (k * CHUNK) ?rows) s"
  have A: "k * CHUNK < length (jobs p) \<and> upsert_error d k = Some e \<and> (\<forall>i<k. upsert_error d i = None) \<longrightarrow>
      updateDatabase d p s = (?s, ?ops, Some e)
      \<and> (\<forall>w loads. scrapeJobs (w_site w) (w_clock w 0) = (loads, Inr p) \<and> w_db w = d \<and> w_store w = s
            \<longrightarrow> main w =
                  (map (Crawl \<circ> int) loads @
                     map (\<lambda>i. Db (Upsert (take CHUNK (drop (i * CHUNK) ?rows)))) [0..<Suc k], ?s, 1))"
  proof
    assume a: "k * CHUNK < length (jobs p) \<and> upsert_error d k = Some e \<and> (\<forall>i<k. upsert_error d i = None)"
    have run: "updateDatabase d p s = (?s, ?ops, Some e)"
      using a by (intro updateDatabase_first_failure) simp_all
    have evs: "map Db ?ops = map (\<lambda>i. Db (Upsert (take CHUNK (drop (i * CHUNK) ?rows)))) [0..<Suc k]"
      by (simp only: map_map comp_def)
    have "\<forall>w loads. scrapeJobs (w_site w) (w_clock w 0) = (loads, Inr p) \<and> w_db w = d \<and> w_store w = s
            \<longrightarrow> main w =
                  (map (Crawl \<circ> int) loads @
                     map (\<lambda>i. Db (Upsert (take CHUNK (drop (i * CHUNK) ?rows)))) [0..<Suc k], ?s, 1)"
    proof (intro allI impI)
      fix w :: world and loads
      assume b: "scrapeJobs (w_site w) (w_clock w 0) = (loads, Inr p) \<and> w_db w = d \<and> w_store w = s"
      then have "main w = (map (Crawl \<circ> int) loads @ map Db ?ops, ?s, 1)"
        using run by (simp add: main_def del: upt_Suc)
      then show "main w =
          (map (Crawl \<circ> int) loads @
             map (\<lambda>i. Db (Upsert (take CHUNK (drop (i * CHUNK) ?rows)))) [0..<Suc k], ?s, 1)"
        unfolding evs .
    qed
    then show "updateDatabase d p s = (?s, ?ops, Some e)
      \<and> (\<forall>w loads. scrapeJobs (w_site w) (w_clock w 0) = (loads, Inr p) \<and> w_db w = d \<and> w_store w = s
            \<longrightarrow> main w =
                  (map (Crawl \<circ> int) loads @
                     map (\<lambda>i. Db (Upsert (take CHUNK (drop (i * CHUNK) ?rows)))) [0..<Suc k], ?s, 1))"
      using run by blast
  qed
  have B: "(\<exists>k. k * CHUNK < length (jobs p) \<and> upsert_error d k \<noteq> None) \<longrightarrow>
        (\<exists>k e. k * CHUNK < length (jobs p) \<and> upsert_error d k = Some e
           \<and> (\<forall>i<k. upsert_error d i = None))"
    using first_failing_chunk [of "length (jobs p)" d] by blast
  show ?thesis
    using A B by blast
qed

text \<open>
  The two-page site gives a snapshot of fourteen records, one chunk; the store fails the
  upsert of that chunk. part_000 issues that one call and ends with exit code 1, the table
  as it was.
\<close>

theorem upsert_failure_is_fatal_witness:
  "upsert_error failing_db 0 = Some (StoreError 500)
   \<and> snd (snd (main failing_world)) = 1
   \<and> length (fst (main failing_world)) = 3
   \<and> fst (snd (main failing_world)) = Map.empty"
proof -
  obtain p where p: "scrapeJobs demo_site (demo_clock 0) = ([0, 10], Inr p)" "length (jobs p) = 14"
    using demo_scrapeJobs by blast
  have e: "upsert_error failing_db 0 = Some (StoreError 500)"
    by (simp add: failing_db_def)
  have k: "0 * CHUNK < length (jobs p) \<and> upsert_error failing_db 0 = Some (StoreError 500)
      \<and> (\<forall>i<0. upsert_error failing_db i = None)"
    using p(2) e by simp
  have w: "scrapeJobs (w_site failing_world) (w_clock failing_world 0) = ([0, 10], Inr p)
      \<and> w_db failing_world = failing_db \<and> w_store failing_world = Map.empty"
    using p(1) by (simp add: failing_world_def)
  have "main failing_world =
      (map (Crawl \<circ> int) [0, 10] @
         map (\<lambda>i. Db (Upsert (take CHUNK (drop (i * CHUNK) (map (to_row (scraped_at p)) (jobs p))))))
           [0..<Suc 0],
       store_upsert (take (0 * CHUNK) (map (to_row (scraped_at p)) (jobs p))) Map.empty, 1)"
    using upsert_failure_is_fatal [of 0 p failing_db "StoreError 500" Map.empty] k w by blast
  then show ?thesis
    using e by simp
qed

text \<open>
  C2. An upsert that the store answers with an error is to end the run as a fatal error,
  with a non-zero exit code, and is never to be passed over in silence. index.js does not
  do so: it looks at no answer of the store. On the two-page site with a store that fails
  the first upsert, the run of index.js issues the deactivation and all fourteen upserts
  and ends with exit code 0; part_000, in the same world, stops at the failed call and
  ends with exit code 1, and the \<open>main\<close> of index.js has the same handler that ends a
  failed run with exit code 1.
\<close>

theorem index_ignores_upsert_failure:
  "upsert_error failing_db 0 = Some (StoreError 500)
   \<and> (\<exists>(p::payload) s. length (jobs p) = 14
        \<and> main_index failing_world =
            Some ([Crawl 0, Crawl 10, Db DeactivateAll] @
                    map (\<lambda>(i, j). Db (Upsert [to_row (demo_clock i) j])) (zip [1..<15] (jobs p)),
                  s, 0))
   \<and> (\<exists>rows. main failing_world = ([Crawl 0, Crawl 10, Db (Upsert rows)], Map.empty, 1))"
proof -
  have e: "upsert_error failing_db 0 = Some (StoreError 500)"
    by (simp add: failing_db_def)
  obtain p where p: "scrapeJobs_index demo_site (demo_clock 0) = Some ([0, 10], Inr p)"
      "length (jobs p) = 14"
    using demo_scrapeJobs_index by blast
  let ?s = "fst (upsert_each_index failing_db demo_clock 1 (jobs p)
      (case update_error failing_db of None \<Rightarrow> store_set_inactive is_active Map.empty
       | Some e \<Rightarrow> Map.empty))"
  have n: "Suc (length (jobs p)) = 15"
    using p(2) by simp
  have "updateDatabase_index failing_db demo_clock p Map.empty =
      (?s, DeactivateAll #
         map (\<lambda>(i, j). Upsert [to_row (demo_clock i) j]) (zip [1..<Suc (length (jobs p))] (jobs p)),
       None)"
    by (rule updateDatabase_index_closed)
  then have run: "updateDatabase_index failing_db demo_clock p Map.empty =
      (?s, DeactivateAll # map (\<lambda>(i, j). Upsert [to_row (demo_clock i) j]) (zip [1..<15] (jobs p)),
       None)"
    unfolding n .
  have evs: "map Db (map (\<lambda>(i, j). Upsert [to_row (demo_clock i) j]) (zip [1..<15] (jobs p))) =
      map (\<lambda>(i, j). Db (Upsert [to_row (demo_clock i) j])) (zip [1..<15] (jobs p))"
    by (simp only: map_map comp_def case_prod_unfold)
  have "main_index failing_world =
      Some (map (Crawl \<circ> int) [0, 10] @
              map Db (DeactivateAll #
                map (\<lambda>(i, j). Upsert [to_row (demo_clock i) j]) (zip [1..<15] (jobs p))),
            ?s, 0)"
    using p(1) run by (simp add: main_index_def failing_world_def del: upt_Suc)
  then have a: "main_index failing_world =
      Some ([Crawl 0, Crawl 10, Db DeactivateAll] @
              map (\<lambda>(i, j). Db (Upsert [to_row (demo_clock i) j])) (zip [1..<15] (jobs p)),
            ?s, 0)"
    using evs by (simp del: upt_Suc)
  obtain q where q: "scrapeJobs demo_site (demo_clock 0) = ([0, 10], Inr q)" "length (jobs q) = 14"
    using demo_scrapeJobs by blast
  let ?rows = "map (to_row (scraped_at q)) (jobs q)"
  have "updateDatabase failing_db q Map.empty =
      (store_upsert (take (0 * CHUNK) ?rows) Map.empty,
       map (\<lambda>i. Upsert (take CHUNK (drop (i * CHUNK) ?rows))) [0..<Suc 0], Some (StoreError 500))"
    using q(2) e by (intro updateDatabase_first_failure) simp_all
  then have "updateDatabase failing_db q Map.empty =
      (Map.empty, [Upsert (take CHUNK ?rows)], Some (StoreError 500))"
    by simp
  then have b: "main failing_world = ([Crawl 0, Crawl 10, Db (Upsert (take CHUNK ?rows))], Map.empty, 1)"
    using q(1) by (simp add: main_def failing_world_def)
  have A: "\<exists>(p::payload) s. length (jobs p) = 14
        \<and> main_index failing_world =
            Some ([Crawl 0, Crawl 10, Db DeactivateAll] @
                    map (\<lambda>(i, j). Db (Upsert [to_row (demo_clock i) j])) (zip [1..<15] (jobs p)),
                  s, 0)"
  proof (intro exI conjI)
    show "length (jobs p) = 14"
      by (rule p(2))
    show "main_index failing_world =
        Some ([Crawl 0, Crawl 10, Db DeactivateAll] @
                map (\<lambda>(i, j). Db (Upsert [to_row (demo_clock i) j])) (zip [1..<15] (jobs p)),
              ?s, 0)"
      by (rule a)
  qed
  have B: "\<exists>rows. main failing_world = ([Crawl 0, Crawl 10, Db (Upsert rows)], Map.empty, 1)"
    by (rule exI [of _ "take CHUNK ?rows"]) (rule b)
  show ?thesis
  proof (intro conjI)
    show "upsert_error failing_db 0 = Some (StoreError 500)"
      by (rule e)
  qed (rule A, rule B)
qed

text \<open>
  C6 (amended). index.js and part_000: when the store URL or the store key is absent from
  the environment, the program ends with exit code 1 before \<open>main\<close> is called: no page is
  loaded and no store call is issued; otherwise it creates the store client and runs
  \<open>main\<close>, unless creating the client throws, which ends the program with exit code 1 at
  that point, again with no page loaded and no store call. part_001: the endpoint and
  the key are looked at in \<open>postToBolt\<close>, after the crawl and after the file is written; when
  one of them is absent the run ends with exit code 1 at that point, and nothing is posted.
\<close>

theorem missing_credentials_are_fatal:
  "(\<not> truthy (or_js (VITE_SUPABASE_URL ev) (SUPABASE_URL ev))
      \<or> \<not> truthy (or_js (or_js (VITE_SUPABASE_ANON_KEY ev) (SUPABASE_SERVICE_ROLE ev)) (SUPABASE_KEY ev))
      \<longrightarrow> program ev w = ([], w_store w, 1))
   \<and> (truthy (or_js (VITE_SUPABASE_URL ev) (SUPABASE_URL ev))
      \<and> truthy (or_js (or_js (VITE_SUPABASE_ANON_KEY ev) (SUPABASE_SERVICE_ROLE ev)) (SUPABASE_KEY ev))
      \<longrightarrow> program ev w =
            (case w_createClient w (or_js (VITE_SUPABASE_URL ev) (SUPABASE_URL ev))
                    (or_js (or_js (VITE_SUPABASE_ANON_KEY ev) (SUPABASE_SERVICE_ROLE ev))
                       (SUPABASE_KEY ev)) of
               Some e \<Rightarrow> ([], w_store w, 1)
             | None \<Rightarrow> main w))
   \<and> (\<not> truthy (VITE_SUPABASE_URL ev) \<or> \<not> truthy (VITE_SUPABASE_ANON_KEY ev)
      \<longrightarrow> program_index ev w = Some ([], w_store w, 1))
   \<and> (truthy (VITE_SUPABASE_URL ev) \<and> truthy (VITE_SUPABASE_ANON_KEY ev)
      \<longrightarrow> program_index ev w =
            (case w_createClient w (VITE_SUPABASE_URL ev) (VITE_SUPABASE_ANON_KEY ev) of
               Some e \<Rightarrow> Some ([], w_store w, 1)
             | None \<Rightarrow> main_index w))
   \<and> (\<not> truthy (cfg_BOLT_INGEST_URL cfg) \<or> \<not> truthy (cfg_INGEST_KEY cfg) \<longrightarrow>
        (\<forall>loads p. scrapeAll cfg (b_site wb) (b_controls wb) (b_clock wb 0) = (loads, Inr p)
            \<and> b_write_error wb = None
          \<longrightarrow> main_bolt cfg wb = (map Crawl loads @ [SaveJson], 1)))"
  by (auto simp: program_def program_index_def main_bolt_def postToBolt_def Let_def)

text \<open>
  No credential at all: both programs end at once. A URL that is there and that the client
  library does not take: both programs end when the client is created. A URL and a key
  that it takes: the programs run \<open>main\<close>.
\<close>

theorem missing_credentials_are_fatal_witness:
  "\<not> truthy (or_js (VITE_SUPABASE_URL no_env) (SUPABASE_URL no_env))
   \<and> program no_env (demo_world demo_site) = ([], Map.empty, 1)
   \<and> program_index no_env (demo_world demo_site) = Some ([], Map.empty, 1)
   \<and> truthy (VITE_SUPABASE_URL malformed_env)
   \<and> program malformed_env (demo_world demo_site) = ([], Map.empty, 1)
   \<and> program_index malformed_env (demo_world demo_site) = Some ([], Map.empty, 1)
   \<and> program demo_env (demo_world demo_site) = main (demo_world demo_site)
   \<and> program_index demo_env (demo_world demo_site) = main_index (demo_world demo_site)"
proof -
  let ?w = "demo_world demo_site"
  have a: "\<not> truthy (or_js (VITE_SUPABASE_URL no_env) (SUPABASE_URL no_env))"
    by (simp add: no_env_def or_js_def truthy_def)
  have b: "\<not> truthy (VITE_SUPABASE_URL no_env)"
    by (simp add: no_env_def truthy_def)
  have c: "w_store ?w = Map.empty" "w_createClient ?w = demo_createClient"
    by (simp_all add: demo_world_def)
  have m: "or_js (VITE_SUPABASE_URL malformed_env) (SUPABASE_URL malformed_env) = Some [100, 98]"
      "or_js (or_js (VITE_SUPABASE_ANON_KEY malformed_env) (SUPABASE_SERVICE_ROLE malformed_env))
         (SUPABASE_KEY malformed_env) = Some [107, 101, 121]"
    by (simp_all add: malformed_env_def or_js_def truthy_def)
  have m': "VITE_SUPABASE_URL malformed_env = Some [100, 98]"
      "VITE_SUPABASE_ANON_KEY malformed_env = Some [107, 101, 121]"
    by (simp_all add: malformed_env_def)
  have d: "or_js (VITE_SUPABASE_URL demo_env) (SUPABASE_URL demo_env) =
        Some [104, 116, 116, 112, 115, 58, 47, 47, 100, 98]"
      "or_js (or_js (VITE_SUPABASE_ANON_KEY demo_env) (SUPABASE_SERVICE_ROLE demo_env))
         (SUPABASE_KEY demo_env) = Some [107, 101, 121]"
    by (simp_all add: demo_env_def or_js_def truthy_def)
  have d': "VITE_SUPABASE_URL demo_env = Some [104, 116, 116, 112, 115, 58, 47, 47, 100, 98]"
      "VITE_SUPABASE_ANON_KEY demo_env = Some [107, 101, 121]"
    by (simp_all add: demo_env_def)
  have t: "truthy (Some [100, 98])" "truthy (Some [107, 101, 121])"
      "truthy (Some [104, 116, 116, 112, 115, 58, 47, 47, 100, 98])"
    by (simp_all add: truthy_def)
  have bad: "demo_createClient (Some [100, 98]) (Some [107, 101, 121]) = Some ClientError"
    by (simp add: demo_createClient_def or_empty_def)
  have good: "demo_createClient (Some [104, 116, 116, 112, 115, 58, 47, 47, 100, 98])
      (Some [107, 101, 121]) = None"
    by (simp add: demo_createClient_def or_empty_def)
  have n: "program no_env ?w = ([], Map.empty, 1) \<and> program_index no_env ?w = Some ([], Map.empty, 1)"
    using missing_credentials_are_fatal [of no_env ?w] a b c(1) by metis
  have tm1: "truthy (or_js (VITE_SUPABASE_URL malformed_env) (SUPABASE_URL malformed_env))
      \<and> truthy (or_js (or_js (VITE_SUPABASE_ANON_KEY malformed_env)
            (SUPABASE_SERVICE_ROLE malformed_env)) (SUPABASE_KEY malformed_env))"
    unfolding m using t by blast
  have tm2: "truthy (VITE_SUPABASE_URL malformed_env) \<and> truthy (VITE_SUPABASE_ANON_KEY malformed_env)"
    unfolding m' using t by blast
  have "program malformed_env ?w =
        (case w_createClient ?w (or_js (VITE_SUPABASE_URL malformed_env) (SUPABASE_URL malformed_env))
                (or_js (or_js (VITE_SUPABASE_ANON_KEY malformed_env)
                   (SUPABASE_SERVICE_ROLE malformed_env)) (SUPABASE_KEY malformed_env)) of
           Some e \<Rightarrow> ([], w_store ?w, 1) | None \<Rightarrow> main ?w)"
    using missing_credentials_are_fatal [of malformed_env ?w] tm1 by blast
  then have bm1: "program malformed_env ?w = ([], Map.empty, 1)"
    unfolding m c bad by simp
  have "program_index malformed_env ?w =
        (case w_createClient ?w (VITE_SUPABASE_URL malformed_env)
                (VITE_SUPABASE_ANON_KEY malformed_env) of
           Some e \<Rightarrow> Some ([], w_store ?w, 1) | None \<Rightarrow> main_index ?w)"
    using missing_credentials_are_fatal [of malformed_env ?w] tm2 by blast
  then have bm2: "program_index malformed_env ?w = Some ([], Map.empty, 1)"
    unfolding m' c bad by simp
  have td1: "truthy (or_js (VITE_SUPABASE_URL demo_env) (SUPABASE_URL demo_env))
      \<and> truthy (or_js (or_js (VITE_SUPABASE_ANON_KEY demo_env)
            (SUPABASE_SERVICE_ROLE demo_env)) (SUPABASE_KEY demo_env))"
    unfolding d using t by blast
  have td2: "truthy (VITE_SUPABASE_URL demo_env) \<and> truthy (VITE_SUPABASE_ANON_KEY demo_env)"
    unfolding d' using t by blast
  have "program demo_env ?w =
        (case w_createClient ?w (or_js (VITE_SUPABASE_URL demo_env) (SUPABASE_URL demo_env))
                (or_js (or_js (VITE_SUPABASE_ANON_KEY demo_env)
                   (SUPABASE_SERVICE_ROLE demo_env)) (SUPABASE_KEY demo_env)) of
           Some e \<Rightarrow> ([], w_store ?w, 1) | None \<Rightarrow> main ?w)"
    using missing_credentials_are_fatal [of demo_env ?w] td1 by blast
  then have gd1: "program demo_env ?w = main ?w"
    unfolding d c good by simp
  have "program_index demo_env ?w =
        (case w_createClient ?w (VITE_SUPABASE_URL demo_env) (VITE_SUPABASE_ANON_KEY demo_env) of
           Some e \<Rightarrow> Some ([], w_store ?w, 1) | None \<Rightarrow> main_index ?w)"
    using missing_credentials_are_fatal [of demo_env ?w] td2 by blast
  then have gd2: "program_index demo_env ?w = main_index ?w"
    unfolding d' c good by simp
  have tm: "truthy (VITE_SUPABASE_URL malformed_env)"
    using tm2 by blast
  show ?thesis
    using a n tm bm1 bm2 gd1 gd2 by blast
qed

text \<open>
  The run on which part_001 departs from the sentence of the specification: the key is absent from the
  configuration. The crawl runs (page 1, then the passes for pages 2 and 3) and the file is
  written before the run ends with exit code 1.
\<close>

theorem bolt_credentials_checked_after_crawl:
  "\<not> truthy (cfg_INGEST_KEY demo_config)
   \<and> main_bolt demo_config demo_world_bolt = ([Crawl 1, Crawl 2, Crawl 3, SaveJson], 1)"
proof -
  have k: "\<not> truthy (cfg_INGEST_KEY demo_config)"
    by (simp add: demo_config_def truthy_def)
  obtain p where "scrapeAll demo_config demo_site demo_controls (100 + 0) = ([1, 2, 3], Inr p)"
    using demo_scrapeAll by blast
  then have "main_bolt demo_config demo_world_bolt = ([Crawl 1, Crawl 2, Crawl 3, SaveJson], 1)"
    using k by (simp add: main_bolt_def demo_world_bolt_def postToBolt_def)
  then show ?thesis
    using k by simp
qed


end
